theory Spec2Isabelle
  imports Main "HOL-Library.List_Lexorder"
begin

section \<open>Text: Python \<open>str\<close> and \<open>bytes\<close>\<close>

text \<open>
  A Python \<open>str\<close> is a sequence of Unicode code points and a \<open>bytes\<close> object a sequence
  of octets; both are lists of naturals here.  \<open>lit\<close> turns an ASCII literal of the source
  into such a list.  Comparison of \<open>str\<close> values is the lexicographic order on code points.
\<close>

type_synonym str = "nat list"
type_synonym bytes = "nat list"

definition lit :: "string \<Rightarrow> str" where
  "lit s = map of_char s"

definition sep :: nat where
  "sep = 47"

definition newline :: nat where
  "newline = 10"

definition dot :: str where
  "dot = [46]"

definition dotdot :: str where
  "dotdot = [46, 46]"

definition startswith :: "str \<Rightarrow> str \<Rightarrow> bool" where
  "startswith s p = (take (length p) s = p)"

definition endswith :: "str \<Rightarrow> str \<Rightarrow> bool" where
  "endswith s p = (length p \<le> length s \<and> drop (length s - length p) s = p)"

text \<open>\<open>str.isspace\<close> on one code point: the Unicode white space characters.\<close>

definition isspace :: "nat \<Rightarrow> bool" where
  "isspace c = ((9 \<le> c \<and> c \<le> 13) \<or> (28 \<le> c \<and> c \<le> 32) \<or> c = 133 \<or> c = 160
      \<or> c = 5760 \<or> (8192 \<le> c \<and> c \<le> 8202) \<or> c = 8232 \<or> c = 8233 \<or> c = 8239
      \<or> c = 8287 \<or> c = 12288)"

definition str_lstrip :: "str \<Rightarrow> str" where
  "str_lstrip s = dropWhile isspace s"

definition str_rstrip :: "str \<Rightarrow> str" where
  "str_rstrip s = rev (dropWhile isspace (rev s))"

definition str_strip :: "str \<Rightarrow> str" where
  "str_strip s = str_rstrip (str_lstrip s)"

text \<open>\<open>s.split()\<close>: the maximal runs of non-space characters, in order.\<close>

fun split_acc :: "str \<Rightarrow> str \<Rightarrow> str list" where
  "split_acc w [] = (if w = [] then [] else [w])"
| "split_acc w (c # cs) =
     (if isspace c then (if w = [] then split_acc [] cs else w # split_acc [] cs)
      else split_acc (w @ [c]) cs)"

definition str_split :: "str \<Rightarrow> str list" where
  "str_split s = split_acc [] s"

text \<open>\<open>s.split('/')\<close>: cut at every separator; the result is never empty.\<close>

fun split_sep :: "str \<Rightarrow> str list" where
  "split_sep [] = [[]]"
| "split_sep (c # cs) =
     (if c = sep then [] # split_sep cs
      else (case split_sep cs of [] \<Rightarrow> [[c]] | w # ws \<Rightarrow> (c # w) # ws))"

text \<open>\<open>'/'.join(comps)\<close>.\<close>

fun join_sep :: "str list \<Rightarrow> str" where
  "join_sep [] = []"
| "join_sep [c] = c"
| "join_sep (c # d # cs) = c @ sep # join_sep (d # cs)"

text \<open>\<open>s.lstrip('/')\<close>, \<open>s.rstrip('/')\<close> and \<open>s.strip('/')\<close>.\<close>

definition lstrip_sep :: "str \<Rightarrow> str" where
  "lstrip_sep s = dropWhile (\<lambda>c. c = sep) s"

definition rstrip_sep :: "str \<Rightarrow> str" where
  "rstrip_sep s = rev (dropWhile (\<lambda>c. c = sep) (rev s))"

definition strip_sep :: "str \<Rightarrow> str" where
  "strip_sep s = rstrip_sep (lstrip_sep s)"

text \<open>\<open>str(n)\<close> for a non-negative integer: its decimal digits.\<close>

fun str_of_nat :: "nat \<Rightarrow> str" where
  "str_of_nat n = (if n < 10 then [48 + n] else str_of_nat (n div 10) @ [48 + n mod 10])"

declare str_of_nat.simps [simp del]

section \<open>\<open>os.path\<close>\<close>

text \<open>\<open>posixpath.join(a, b)\<close>.\<close>

definition os_path_join :: "str \<Rightarrow> str \<Rightarrow> str" where
  "os_path_join a b =
     (if startswith b [sep] then b
      else if a = [] \<or> endswith a [sep] then a @ b
      else a @ sep # b)"

text \<open>
  \<open>posixpath.normpath\<close>: the body of its loop over the components, then the function.
  One or two leading slashes are kept, three or more become one.
\<close>

definition normpath_step :: "nat \<Rightarrow> str list \<Rightarrow> str \<Rightarrow> str list" where
  "normpath_step initial_slashes new_comps c =
     (if c = [] \<or> c = dot then new_comps
      else if c \<noteq> dotdot \<or> (initial_slashes = 0 \<and> new_comps = [])
              \<or> (new_comps \<noteq> [] \<and> last new_comps = dotdot)
           then new_comps @ [c]
      else if new_comps \<noteq> [] then butlast new_comps
      else new_comps)"

definition os_path_normpath :: "str \<Rightarrow> str" where
  "os_path_normpath path =
     (if path = [] then dot
      else
        let initial_slashes =
              (if startswith path [sep]
               then (if startswith path [sep, sep] \<and> \<not> startswith path [sep, sep, sep]
                     then 2 else 1)
               else 0);
            comps = split_sep path;
            new_comps = foldl (normpath_step initial_slashes) [] comps;
            path' = join_sep new_comps;
            path'' = (if initial_slashes \<noteq> 0 then replicate initial_slashes sep @ path'
                      else path')
        in if path'' = [] then dot else path'')"

section \<open>UTF-8\<close>

text \<open>
  One step of the decoder of \<open>bytes.decode('utf-8')\<close> at a non-empty input: either a code
  point and the number of bytes it takes, or no code point and the number of bytes the
  error spans (an invalid start byte, an invalid continuation byte, or a sequence cut off
  by the end of the data).
\<close>

definition is_cont :: "nat \<Rightarrow> bool" where
  "is_cont b = (128 \<le> b \<and> b < 192)"

fun utf8_next :: "bytes \<Rightarrow> nat option \<times> nat" where
  "utf8_next [] = (None, 0)"
| "utf8_next (ch # s) =
     (if ch < 128 then (Some ch, 1)
      else if ch < 194 then (None, 1)
      else if ch < 224 then
        (case s of
           [] \<Rightarrow> (None, 1)
         | ch2 # _ \<Rightarrow>
             if \<not> is_cont ch2 then (None, 1)
             else (Some ((ch - 192) * 64 + (ch2 - 128)), 2))
      else if ch < 240 then
        (case s of
           [] \<Rightarrow> (None, 1)
         | ch2 # s2 \<Rightarrow>
             if \<not> is_cont ch2 \<or> (if ch2 < 160 then ch = 224 else ch = 237) then (None, 1)
             else (case s2 of
                     [] \<Rightarrow> (None, 2)
                   | ch3 # _ \<Rightarrow>
                       if \<not> is_cont ch3 then (None, 2)
                       else (Some ((ch - 224) * 4096 + (ch2 - 128) * 64 + (ch3 - 128)), 3)))
      else if ch < 245 then
        (case s of
           [] \<Rightarrow> (None, 1)
         | ch2 # s2 \<Rightarrow>
             if \<not> is_cont ch2 \<or> (if ch2 < 144 then ch = 240 else ch = 244) then (None, 1)
             else (case s2 of
                     [] \<Rightarrow> (None, 2)
                   | ch3 # s3 \<Rightarrow>
                       if \<not> is_cont ch3 then (None, 2)
                       else (case s3 of
                               [] \<Rightarrow> (None, 3)
                             | ch4 # _ \<Rightarrow>
                                 if \<not> is_cont ch4 then (None, 3)
                                 else (Some ((ch - 240) * 262144 + (ch2 - 128) * 4096
                                               + (ch3 - 128) * 64 + (ch4 - 128)), 4))))
      else (None, 1))"

text \<open>
  The decoder's walk over the input.  The first argument counts the bytes still to be
  skipped because the previous step has consumed them.  Each entry of the result is a
  decoded code point or \<open>None\<close> for one decoding error.
\<close>

fun utf8_scan :: "nat \<Rightarrow> bytes \<Rightarrow> nat option list" where
  "utf8_scan k [] = []"
| "utf8_scan (Suc k) (b # bs) = utf8_scan k bs"
| "utf8_scan 0 (b # bs) = (case utf8_next (b # bs) of (r, n) \<Rightarrow> r # utf8_scan (n - 1) bs)"

text \<open>\<open>b.decode('utf-8')\<close>: \<open>None\<close> stands for \<open>UnicodeDecodeError\<close>.\<close>

definition decode_strict :: "bytes \<Rightarrow> str option" where
  "decode_strict b = (let r = utf8_scan 0 b in if None \<in> set r then None else Some (map the r))"

text \<open>\<open>b.decode('utf-8', errors='replace')\<close>: every error becomes U+FFFD.\<close>

definition decode_replace :: "bytes \<Rightarrow> str" where
  "decode_replace b = map (\<lambda>r. case r of None \<Rightarrow> 65533 | Some c \<Rightarrow> c) (utf8_scan 0 b)"

text \<open>\<open>s.encode('utf-8')\<close>: \<open>None\<close> stands for \<open>UnicodeEncodeError\<close> (a surrogate).\<close>

definition encode_cp :: "nat \<Rightarrow> bytes option" where
  "encode_cp c =
     (if c < 128 then Some [c]
      else if c < 2048 then Some [192 + c div 64, 128 + c mod 64]
      else if c < 65536 then
        (if 55296 \<le> c \<and> c \<le> 57343 then None
         else Some [224 + c div 4096, 128 + (c div 64) mod 64, 128 + c mod 64])
      else Some [240 + c div 262144, 128 + (c div 4096) mod 64, 128 + (c div 64) mod 64,
                 128 + c mod 64])"

fun encode_utf8 :: "str \<Rightarrow> bytes option" where
  "encode_utf8 [] = Some []"
| "encode_utf8 (c # cs) =
     (case encode_cp c of
        None \<Rightarrow> None
      | Some b \<Rightarrow> (case encode_utf8 cs of None \<Rightarrow> None | Some bs \<Rightarrow> Some (b @ bs)))"

text \<open>\<open>f.readline()\<close> on a binary file: the next line with its newline, and the rest.\<close>

fun readline :: "bytes \<Rightarrow> bytes \<times> bytes" where
  "readline [] = ([], [])"
| "readline (b # bs) =
     (if b = newline then ([b], bs) else (case readline bs of (l, r) \<Rightarrow> (b # l, r)))"

section \<open>The archive and the emulator's state\<close>

text \<open>
  What \<open>tar.extractfile(member)\<close> gives for a member: a file object over its bytes, \<open>None\<close>
  for a member without data (a directory, a device), or \<open>KeyError\<close> for a link whose
  target is not in the archive.
\<close>

datatype extracted = RegFile bytes | NotRegular | LinkMissing

record member =
  name :: str
  uname :: str
  payload :: extracted

text \<open>
  The fields of \<open>Emulator\<close>.  \<open>log_rows\<close> is what has been written through the CSV writer,
  \<open>stdout\<close> the sequence of chunks written to standard output (one per \<open>print\<close> or prompt),
  \<open>status\<close> the exit status once \<open>sys.exit\<close> has been called.
\<close>

record emulator =
  username :: str
  script_path :: str
  current_dir :: str
  members :: "member list"
  log_rows :: "str list list"
  stdout :: "str list"
  status :: "nat option"

definition print :: "emulator \<Rightarrow> str \<Rightarrow> emulator" where
  "print st s = st\<lparr>stdout := stdout st @ [s @ [newline]]\<rparr>"

definition print_end :: "emulator \<Rightarrow> str \<Rightarrow> str \<Rightarrow> emulator" where
  "print_end st s e = st\<lparr>stdout := stdout st @ [s @ e]\<rparr>"

text \<open>\<open>tar.getmember(name)\<close>: the last member of that exact name, \<open>None\<close> for \<open>KeyError\<close>.\<close>

definition getmember :: "member list \<Rightarrow> str \<Rightarrow> member option" where
  "getmember ms nm = find (\<lambda>m. name m = rstrip_sep nm) (rev ms)"

section \<open>The commands\<close>

text \<open>
  The methods of \<open>Emulator\<close>.  Each handler takes the state and returns the new one;
  what it prints is appended to \<open>stdout\<close>.  \<open>normalize_member_name\<close> removes a leading
  \<open>./\<close> from a name.
\<close>

definition normalize_member_name :: "str \<Rightarrow> str" where
  "normalize_member_name nm = (if startswith nm (lit ''./'') then drop 2 nm else nm)"

text \<open>
  \<open>ls\<close>: the loop that fills the set \<open>contents\<close>, then the printing of its sorted elements,
  each with \<open>end='  '\<close>, and the final \<open>print()\<close>.
\<close>

fun ls_loop :: "str \<Rightarrow> member list \<Rightarrow> str set \<Rightarrow> str set" where
  "ls_loop prefix [] contents = contents"
| "ls_loop prefix (m # ms) contents =
     (let member_name = normalize_member_name (name m) in
      if startswith member_name prefix then
        (let suffix = split_sep (drop (length prefix) member_name) in
         if hd suffix \<noteq> [] then ls_loop prefix ms (insert (hd suffix) contents)
         else ls_loop prefix ms contents)
      else ls_loop prefix ms contents)"

definition ls :: "emulator \<Rightarrow> emulator" where
  "ls st =
     (let prefix0 = strip_sep (current_dir st);
          prefix = (if prefix0 \<noteq> [] then prefix0 @ [sep] else prefix0);
          contents = ls_loop prefix (members st) {};
          st' = foldl (\<lambda>s item. print_end s item (lit ''  '')) st (sorted_list_of_set contents)
      in print st' [])"

text \<open>
  \<open>cd\<close>: the loop over the members returns at the first one whose stripped name starts
  with the prefix; when there is none the error is printed.
\<close>

fun cd_loop :: "str \<Rightarrow> member list \<Rightarrow> bool" where
  "cd_loop prefix [] = False"
| "cd_loop prefix (m # ms) =
     (if startswith (normalize_member_name (name m)) prefix then True else cd_loop prefix ms)"

definition cd :: "emulator \<Rightarrow> str \<Rightarrow> emulator" where
  "cd st path =
     (let new_path = os_path_normpath (os_path_join (current_dir st) path) in
      if new_path = [sep] then st\<lparr>current_dir := [sep]\<rparr>
      else
        let prefix = normalize_member_name (strip_sep new_path) @ [sep] in
        if cd_loop prefix (members st) then st\<lparr>current_dir := new_path\<rparr>
        else print st (lit ''cd: '' @ path @ lit '': No such file or directory''))"

text \<open>
  \<open>head\<close>: at most ten rounds of \<open>readline\<close>, each line decoded on its own and printed
  after \<open>rstrip()\<close>; the first line that does not decode ends the command with the error.
\<close>

fun head_loop :: "nat \<Rightarrow> bytes \<Rightarrow> str \<Rightarrow> emulator \<Rightarrow> emulator" where
  "head_loop 0 f filename st = st"
| "head_loop (Suc k) f filename st =
     (case readline f of (line, f') \<Rightarrow>
        if line = [] then st
        else (case decode_strict line of
                None \<Rightarrow> print st (lit ''head: error reading '' @ [39] @ filename @ [39]
                                   @ lit '': invalid encoding'')
              | Some decoded_line \<Rightarrow> head_loop k f' filename (print st (str_rstrip decoded_line))))"

definition head :: "emulator \<Rightarrow> str \<Rightarrow> emulator" where
  "head st filename =
     (let filepath = os_path_normpath (os_path_join (current_dir st) filename);
          member_name = normalize_member_name (lstrip_sep filepath) in
      case getmember (members st) member_name of
        None \<Rightarrow> print st (lit ''head: cannot open '' @ [39] @ filename @ [39]
                           @ lit '' for reading: No such file or directory'')
      | Some m \<Rightarrow>
          (case payload m of
             NotRegular \<Rightarrow> print st (lit ''head: cannot open '' @ [39] @ filename @ [39]
                                     @ lit '' for reading: Not a regular file'')
           | LinkMissing \<Rightarrow> print st (lit ''head: cannot open '' @ [39] @ filename @ [39]
                                      @ lit '' for reading: No such file or directory'')
           | RegFile f \<Rightarrow> head_loop 10 f filename st))"

text \<open>
  \<open>chown\<close>: the first member whose stored name equals the resolved operand gets the new
  \<open>uname\<close>; \<open>None\<close> when the loop falls through.
\<close>

fun chown_loop :: "str \<Rightarrow> str \<Rightarrow> member list \<Rightarrow> member list option" where
  "chown_loop owner member_name [] = None"
| "chown_loop owner member_name (m # ms) =
     (if name m = member_name then Some (m\<lparr>uname := owner\<rparr> # ms)
      else map_option ((#) m) (chown_loop owner member_name ms))"

definition chown :: "emulator \<Rightarrow> str \<Rightarrow> str \<Rightarrow> emulator" where
  "chown st owner filename =
     (let filepath = os_path_normpath (os_path_join (current_dir st) filename);
          member_name = normalize_member_name (lstrip_sep filepath) in
      case chown_loop owner member_name (members st) of
        Some ms' \<Rightarrow> print (st\<lparr>members := ms'\<rparr>)
                     (lit ''Changed owner of '' @ [39] @ filename @ [39] @ lit '' to ''
                      @ [39] @ owner @ [39])
      | None \<Rightarrow> print st (lit ''chown: cannot access '' @ [39] @ filename @ [39]
                           @ lit '': No such file or directory''))"

text \<open>
  \<open>wc\<close>.  A failing \<open>encode\<close> would be caught by the handler for \<open>Exception\<close>, which prints
  \<open>wc: error reading\<close> with the text of the exception, shortened here.
\<close>

definition wc :: "emulator \<Rightarrow> str \<Rightarrow> emulator" where
  "wc st filename =
     (let filepath = os_path_normpath (os_path_join (current_dir st) filename);
          member_name = normalize_member_name (lstrip_sep filepath) in
      case getmember (members st) member_name of
        None \<Rightarrow> print st (lit ''wc: '' @ filename @ lit '': No such file or directory'')
      | Some m \<Rightarrow>
          (case payload m of
             NotRegular \<Rightarrow> print st (lit ''wc: '' @ filename @ lit '': No such file or directory'')
           | LinkMissing \<Rightarrow> print st (lit ''wc: '' @ filename @ lit '': No such file or directory'')
           | RegFile f \<Rightarrow>
               (let content = decode_replace f;
                    lines = count_list content newline;
                    words = length (str_split content) in
                case encode_utf8 content of
                  None \<Rightarrow> print st (lit ''wc: error reading '' @ [39] @ filename @ [39]
                                     @ lit '': surrogates not allowed'')
                | Some b \<Rightarrow>
                    print st (str_of_nat lines @ lit '' '' @ str_of_nat words @ lit '' ''
                              @ str_of_nat (length b) @ lit '' '' @ filename))))"

text \<open>\<open>exit_shell\<close> closes the log and the archive and ends the process with status 0.\<close>

definition exit_shell :: "emulator \<Rightarrow> emulator" where
  "exit_shell st = st\<lparr>status := Some 0\<rparr>"

text \<open>
  \<open>execute_command\<close> writes the log row first, then splits the line and dispatches on
  the first token.
\<close>

definition execute_command :: "emulator \<Rightarrow> str \<Rightarrow> emulator" where
  "execute_command st0 command_line =
     (let st = st0\<lparr>log_rows := log_rows st0 @ [[username st0, command_line]]\<rparr>;
          args = str_split (str_strip command_line) in
      if args = [] then st
      else
        let command = args ! 0 in
        if command = lit ''ls'' then ls st
        else if command = lit ''cd'' then
          (if length args > 1 then cd st (args ! 1) else print st (lit ''cd: missing operand''))
        else if command = lit ''exit'' then exit_shell st
        else if command = lit ''head'' then
          (if length args > 1 then head st (args ! 1)
           else print st (lit ''head: missing file operand''))
        else if command = lit ''chown'' then
          (if length args > 2 then chown st (args ! 1) (args ! 2)
           else print st (lit ''chown: missing operand''))
        else if command = lit ''wc'' then
          (if length args > 1 then wc st (args ! 1)
           else print st (lit ''wc: missing file operand''))
        else print st (command @ lit '': command not found''))"

section \<open>The session\<close>

text \<open>
  The startup script is the list of its lines, or \<open>None\<close> when the file does not exist.
  \<open>sys.exit\<close> raises \<open>SystemExit\<close>, which neither loop catches: once \<open>status\<close> is set,
  no further line is executed.
\<close>

fun script_loop :: "emulator \<Rightarrow> str list \<Rightarrow> emulator" where
  "script_loop st [] = st"
| "script_loop st (c # cs) =
     (let command = str_strip c in
      if command \<noteq> [] then
        (let st' = execute_command st command in
         if status st' \<noteq> None then st' else script_loop st' cs)
      else script_loop st cs)"

definition run_startup_script :: "emulator \<Rightarrow> str list option \<Rightarrow> emulator" where
  "run_startup_script st script =
     (case script of
        Some commands \<Rightarrow> script_loop st commands
      | None \<Rightarrow> (print st (lit ''Startup script '' @ script_path st @ lit '' not found.''))
                  \<lparr>status := Some 1\<rparr>)"

definition init :: "str \<Rightarrow> member list \<Rightarrow> str \<Rightarrow> str list option \<Rightarrow> emulator" where
  "init user ms spath script =
     run_startup_script
       \<lparr>username = user, script_path = spath, current_dir = [sep], members = ms,
        log_rows = [[lit ''User'', lit ''Action'']], stdout = [], status = None\<rparr>
       script"

definition prompt :: "emulator \<Rightarrow> emulator" where
  "prompt st = st\<lparr>stdout := stdout st @ [username st @ lit ''@emulator:'' @ current_dir st
                                           @ lit ''$ '']\<rparr>"

text \<open>
  The interactive loop over the lines typed.  Each round prints the prompt and reads a
  line; the end of the list is end-of-input (or an interrupt), which ends the session like
  \<open>exit\<close>.
\<close>

fun shell_loop :: "emulator \<Rightarrow> str list \<Rightarrow> emulator" where
  "shell_loop st [] = exit_shell (prompt st)"
| "shell_loop st (command_line # rest) =
     (let st' = execute_command (prompt st) command_line in
      if status st' \<noteq> None then st' else shell_loop st' rest)"

definition main :: "str \<Rightarrow> member list \<Rightarrow> str \<Rightarrow> str list option \<Rightarrow> str list \<Rightarrow> emulator" where
  "main user ms spath script inputs =
     (let emulator = init user ms spath script in
      if status emulator \<noteq> None then emulator else shell_loop emulator inputs)"

section \<open>Vocabulary of the properties\<close>

text \<open>The number of operands each command of the grammar requires.\<close>

definition required_operands :: "str \<Rightarrow> nat" where
  "required_operands command =
     (if command = lit ''chown'' then 2
      else if command = lit ''cd'' \<or> command = lit ''head'' \<or> command = lit ''wc'' then 1
      else 0)"

text \<open>
  An archive as \<open>tar -cf fs.tar .\<close> writes it: the one file is stored under the name
  \<open>./file1.txt\<close>.
\<close>

definition dot_slash_archive :: emulator where
  "dot_slash_archive =
     \<lparr>username = lit ''user'', script_path = lit ''start.sh'', current_dir = lit ''/'',
      members = [\<lparr>name = lit ''./file1.txt'', uname = lit ''root'',
                  payload = RegFile (lit ''Hello'')\<rparr>],
      log_rows = [], stdout = [], status = None\<rparr>"

text \<open>
  The member name a file operand is looked up under: the operand resolved against the
  current directory, without its leading separators.
\<close>

definition resolve_file :: "str \<Rightarrow> str \<Rightarrow> str" where
  "resolve_file cur filename =
     normalize_member_name (lstrip_sep (os_path_normpath (os_path_join cur filename)))"

text \<open>An archive with the one file \<open>file1.txt\<close>, owned by \<open>root\<close>.\<close>

definition owner_archive :: emulator where
  "owner_archive =
     \<lparr>username = lit ''user'', script_path = lit ''start.sh'', current_dir = lit ''/'',
      members = [\<lparr>name = lit ''file1.txt'', uname = lit ''root'', payload = RegFile []\<rparr>],
      log_rows = [], stdout = [], status = None\<rparr>"

text \<open>
  The lines that reach \<open>execute_command\<close> in a session: the non-blank lines of the startup
  script after trimming, then the lines typed, up to and including the first line whose
  command is \<open>exit\<close>.
\<close>

definition is_exit :: "str \<Rightarrow> bool" where
  "is_exit line = (case str_split (str_strip line) of [] \<Rightarrow> False | c # _ \<Rightarrow> c = lit ''exit'')"

fun until_exit :: "str list \<Rightarrow> str list" where
  "until_exit [] = []"
| "until_exit (l # rest) = (if is_exit l then [l] else l # until_exit rest)"

definition dispatched :: "str list \<Rightarrow> str list \<Rightarrow> str list" where
  "dispatched script inputs =
     until_exit (filter (\<lambda>c. c \<noteq> []) (map str_strip script) @ inputs)"

text \<open>
  The first path segment of a name, the prefix a directory stands for, and the children of
  the current directory: the non-empty first segments of what follows the prefix in the
  stripped entry names that start with it.
\<close>

definition first_segment :: "str \<Rightarrow> str" where
  "first_segment s = takeWhile (\<lambda>c. c \<noteq> sep) s"

definition dir_prefix :: "str \<Rightarrow> str" where
  "dir_prefix d = (if strip_sep d \<noteq> [] then strip_sep d @ [sep] else [])"

definition children :: "emulator \<Rightarrow> str set" where
  "children st =
     set (filter (\<lambda>s. s \<noteq> [])
            (map (\<lambda>n. first_segment (drop (length (dir_prefix (current_dir st))) n))
               (filter (\<lambda>n. startswith n (dir_prefix (current_dir st)))
                  (map (\<lambda>m. normalize_member_name (name m)) (members st)))))"

text \<open>Names separated by two spaces, as the listing is described.\<close>

fun two_space_separated :: "str list \<Rightarrow> str" where
  "two_space_separated [] = []"
| "two_space_separated [x] = x"
| "two_space_separated (x # y # zs) = x @ lit ''  '' @ two_space_separated (y # zs)"

text \<open>An archive with a directory \<open>dir1\<close>, which is the current directory.\<close>

definition listing_archive :: emulator where
  "listing_archive =
     \<lparr>username = lit ''user'', script_path = lit ''start.sh'', current_dir = lit ''/dir1'',
      members = [\<lparr>name = lit ''file1.txt'', uname = lit ''root'', payload = RegFile []\<rparr>,
                 \<lparr>name = lit ''dir1/file3.txt'', uname = lit ''root'', payload = RegFile []\<rparr>,
                 \<lparr>name = lit ''./dir1/sub/x'', uname = lit ''root'', payload = RegFile []\<rparr>,
                 \<lparr>name = lit ''dir1/sub/y'', uname = lit ''root'', payload = RegFile []\<rparr>],
      log_rows = [], stdout = [], status = None\<rparr>"

text \<open>
  A proper path component: not empty, not \<open>.\<close>, and free of separators.  The resolution
  of a path operand against the current directory.
\<close>

definition proper :: "str \<Rightarrow> bool" where
  "proper c = (c \<noteq> [] \<and> c \<noteq> dot \<and> sep \<notin> set c)"

definition resolve_dir :: "str \<Rightarrow> str \<Rightarrow> str" where
  "resolve_dir cur path = os_path_normpath (os_path_join cur path)"

text \<open>The archive of the word-count scenarios: a text file, an empty file, a binary file.\<close>

definition wc_archive :: emulator where
  "wc_archive =
     \<lparr>username = lit ''user'', script_path = lit ''start.sh'', current_dir = lit ''/'',
      members = [\<lparr>name = lit ''file1.txt'', uname = lit ''root'',
                  payload = RegFile (lit ''Hello World'' @ [newline] @ lit ''This is a test''
                                     @ [newline])\<rparr>,
                 \<lparr>name = lit ''empty.txt'', uname = lit ''root'', payload = RegFile []\<rparr>,
                 \<lparr>name = lit ''binaryfile'', uname = lit ''root'', payload = RegFile [255, 254]\<rparr>],
      log_rows = [], stdout = [], status = None\<rparr>"


text \<open>
  The lines of a file as successive \<open>readline\<close> calls return them, validity of a byte
  sequence as UTF-8, a line as \<open>head\<close> shows it (decoded, trailing white space removed,
  then the newline of \<open>print\<close>), and the decode error message of \<open>head\<close>.
\<close>

fun readlines :: "bytes \<Rightarrow> bytes list" where
  "readlines [] = []"
| "readlines (b # bs) =
     (if b = newline then [b] # readlines bs
      else (case readlines bs of [] \<Rightarrow> [[b]] | l # rest \<Rightarrow> (b # l) # rest))"

definition valid_utf8 :: "bytes \<Rightarrow> bool" where
  "valid_utf8 b = (decode_strict b \<noteq> None)"

definition shown :: "bytes \<Rightarrow> str" where
  "shown l = (case decode_strict l of None \<Rightarrow> [] | Some d \<Rightarrow> str_rstrip d @ [newline])"

definition head_error :: "str \<Rightarrow> str" where
  "head_error filename =
     lit ''head: error reading '' @ [39] @ filename @ [39] @ lit '': invalid encoding''
     @ [newline]"

text \<open>A line shown with only its trailing newline removed, as the description has it.\<close>

definition strip_newline :: "str \<Rightarrow> str" where
  "strip_newline s = (if s \<noteq> [] \<and> last s = newline then butlast s else s)"

definition shown_by_spec :: "bytes \<Rightarrow> str" where
  "shown_by_spec l =
     (case decode_strict l of None \<Rightarrow> [] | Some d \<Rightarrow> strip_newline d @ [newline])"

text \<open>
  The archive of the \<open>head\<close> scenarios: a text file of two lines, a binary file, a file
  whose second line is not UTF-8, and a line that ends with a space.
\<close>

definition file1_content :: bytes where
  "file1_content = lit ''Hello World'' @ [newline] @ lit ''This is a test'' @ [newline]"

definition binary_content :: bytes where
  "binary_content = [255, 254]"

definition mixed_content :: bytes where
  "mixed_content = lit ''ok'' @ [newline, 255, newline]"

definition spaces_content :: bytes where
  "spaces_content = lit ''a '' @ [newline]"

definition head_archive :: emulator where
  "head_archive =
     \<lparr>username = lit ''user'', script_path = lit ''start.sh'', current_dir = lit ''/'',
      members = [\<lparr>name = lit ''file1.txt'', uname = lit ''root'', payload = RegFile file1_content\<rparr>,
                 \<lparr>name = lit ''binaryfile'', uname = lit ''root'', payload = RegFile binary_content\<rparr>,
                 \<lparr>name = lit ''mixed'', uname = lit ''root'', payload = RegFile mixed_content\<rparr>,
                 \<lparr>name = lit ''spaces'', uname = lit ''root'', payload = RegFile spaces_content\<rparr>],
      log_rows = [], stdout = [], status = None\<rparr>"

text \<open>
  A clean component is a proper one other than \<open>..\<close>.  The current directory is valid
  when it is an absolute normalised path that is the root or a directory by the existence
  rule.  A child directory of the current directory is one of its children that is itself
  a directory by that rule.
\<close>

definition clean :: "str \<Rightarrow> bool" where
  "clean c = (proper c \<and> c \<noteq> dotdot)"

definition valid_dir :: "emulator \<Rightarrow> bool" where
  "valid_dir st =
     (startswith (current_dir st) [sep]
      \<and> os_path_normpath (current_dir st) = current_dir st
      \<and> (current_dir st = [sep]
           \<or> (\<exists>m \<in> set (members st). startswith (normalize_member_name (name m))
                  (lstrip_sep (current_dir st) @ [sep]))))"

definition child_directory :: "emulator \<Rightarrow> str \<Rightarrow> bool" where
  "child_directory st c =
     (c \<in> children st
      \<and> (\<exists>m \<in> set (members st). startswith (normalize_member_name (name m))
             (dir_prefix (current_dir st) @ c @ [sep])))"

text \<open>
  The state \<open>__init__\<close> sets up before it runs the startup script, and the states the
  emulator can be in: those that executing command lines and prompting lead to from
  there.
\<close>

definition initial :: "str \<Rightarrow> member list \<Rightarrow> str \<Rightarrow> emulator" where
  "initial user ms spath =
     \<lparr>username = user, script_path = spath, current_dir = [sep], members = ms,
      log_rows = [[lit ''User'', lit ''Action'']], stdout = [], status = None\<rparr>"

inductive reachable :: "emulator \<Rightarrow> bool" where
  start: "reachable (initial user ms spath)"
| step: "reachable st \<Longrightarrow> reachable (execute_command st line)"
| prompted: "reachable st \<Longrightarrow> reachable (prompt st)"

text \<open>
  Two archives and a session in each: one with a directory inside a directory, after
  \<open>cd dir1\<close>, and one whose only entry has the segment \<open>..\<close> in its name, after \<open>cd a\<close>.
\<close>

definition nested_archive :: "member list" where
  "nested_archive =
     [\<lparr>name = lit ''dir1/sub/x'', uname = lit ''root'', payload = RegFile []\<rparr>,
      \<lparr>name = lit ''file1.txt'', uname = lit ''root'', payload = RegFile []\<rparr>]"

definition dotdot_archive :: "member list" where
  "dotdot_archive = [\<lparr>name = lit ''a/../b/f'', uname = lit ''root'', payload = RegFile []\<rparr>]"

definition in_dir1 :: emulator where
  "in_dir1 = execute_command (initial (lit ''user'') nested_archive (lit ''start.sh''))
               (lit ''cd dir1'')"

definition in_a :: emulator where
  "in_a = execute_command (initial (lit ''user'') dotdot_archive (lit ''start.sh''))
            (lit ''cd a'')"

text \<open>
  The session at the root of the first of these archives, and a session in the directory
  \<open>d\<close> of an archive whose entry has a space in a directory name.
\<close>

definition root_session :: emulator where
  "root_session = initial (lit ''user'') nested_archive (lit ''start.sh'')"

definition spaced_archive :: "member list" where
  "spaced_archive = [\<lparr>name = lit ''d/my dir/f'', uname = lit ''root'', payload = RegFile []\<rparr>]"

definition in_d :: emulator where
  "in_d = execute_command (initial (lit ''user'') spaced_archive (lit ''start.sh''))
            (lit ''cd d'')"

section \<open>Evaluation and frame lemmas\<close>

lemmas text_defs = lit_def sep_def newline_def dot_def dotdot_def startswith_def endswith_def
  isspace_def str_lstrip_def str_rstrip_def str_strip_def str_split_def lstrip_sep_def
  rstrip_sep_def strip_sep_def

lemmas path_defs = os_path_join_def os_path_normpath_def normpath_step_def
  normalize_member_name_def getmember_def

text \<open>No handler reads or writes the log: each commutes with an update of \<open>log_rows\<close>.\<close>

lemma print_log: "print (st\<lparr>log_rows := r\<rparr>) s = (print st s)\<lparr>log_rows := r\<rparr>"
  by (simp add: print_def)

lemma print_end_log:
  "print_end (st\<lparr>log_rows := r\<rparr>) s e = (print_end st s e)\<lparr>log_rows := r\<rparr>"
  by (simp add: print_end_def)

lemma foldl_print_end_log:
  "foldl (\<lambda>s item. print_end s item e) (st\<lparr>log_rows := r\<rparr>) xs
   = (foldl (\<lambda>s item. print_end s item e) st xs)\<lparr>log_rows := r\<rparr>"
  by (induction xs arbitrary: st) (simp_all add: print_end_log)

lemma ls_log: "ls (st\<lparr>log_rows := r\<rparr>) = (ls st)\<lparr>log_rows := r\<rparr>"
  by (simp add: ls_def Let_def foldl_print_end_log print_log)

lemma cd_log: "cd (st\<lparr>log_rows := r\<rparr>) p = (cd st p)\<lparr>log_rows := r\<rparr>"
  by (simp add: cd_def Let_def print_log)

lemma head_loop_log:
  "head_loop k f fn (st\<lparr>log_rows := r\<rparr>) = (head_loop k f fn st)\<lparr>log_rows := r\<rparr>"
  by (induction k f fn st rule: head_loop.induct)
     (simp_all add: print_log split: prod.splits option.splits)

lemma head_log: "head (st\<lparr>log_rows := r\<rparr>) p = (head st p)\<lparr>log_rows := r\<rparr>"
  by (simp add: head_def Let_def print_log head_loop_log split: option.splits extracted.splits)

lemma chown_log:
  "chown (st\<lparr>log_rows := r\<rparr>) ow p = (chown st ow p)\<lparr>log_rows := r\<rparr>"
  by (simp add: chown_def Let_def print_def split: option.splits)

lemma wc_log: "wc (st\<lparr>log_rows := r\<rparr>) p = (wc st p)\<lparr>log_rows := r\<rparr>"
  by (simp add: wc_def Let_def print_log split: option.splits extracted.splits)

lemma exit_shell_log:
  "exit_shell (st\<lparr>log_rows := r\<rparr>) = (exit_shell st)\<lparr>log_rows := r\<rparr>"
  by (simp add: exit_shell_def)

lemmas handler_log = print_log ls_log cd_log head_log chown_log wc_log exit_shell_log

lemma chown_is_no_other_command:
  "lit ''chown'' \<noteq> lit ''cd''" "lit ''chown'' \<noteq> lit ''head''"
  "lit ''chown'' \<noteq> lit ''wc''" "lit ''chown'' \<noteq> lit ''ls''"
  "lit ''chown'' \<noteq> lit ''exit''"
  by (simp_all add: lit_def)

text \<open>What each handler leaves unchanged.\<close>

lemma print_fields [simp]:
  "username (print st s) = username st" "log_rows (print st s) = log_rows st"
  "status (print st s) = status st" "current_dir (print st s) = current_dir st"
  "members (print st s) = members st" "script_path (print st s) = script_path st"
  "stdout (print st s) = stdout st @ [s @ [newline]]"
  by (simp_all add: print_def)

lemma foldl_print_end:
  "foldl (\<lambda>s item. print_end s item e) st xs = st\<lparr>stdout := stdout st @ map (\<lambda>i. i @ e) xs\<rparr>"
  by (induction xs arbitrary: st) (simp_all add: print_end_def)

lemma ls_stdout_only: "ls st = st\<lparr>stdout := stdout (ls st)\<rparr>"
  by (simp add: ls_def Let_def foldl_print_end print_def)

lemma head_loop_stdout_only:
  "head_loop k f fn st = st\<lparr>stdout := stdout (head_loop k f fn st)\<rparr>"
proof (induction k f fn st rule: head_loop.induct)
  case (1 f filename st)
  then show ?case by simp
next
  case (2 k f filename st)
  show ?case
  proof (cases "readline f")
    case (Pair line f')
    show ?thesis
    proof (cases "line = []")
      case True
      with Pair show ?thesis by simp
    next
      case False
      show ?thesis
      proof (cases "decode_strict line")
        case None
        with Pair False show ?thesis by (simp add: print_def)
      next
        case (Some d)
        from "2.IH" [OF Pair [symmetric] False Some]
        have "head_loop k f' filename (print st (str_rstrip d))
              = (print st (str_rstrip d))\<lparr>stdout := stdout (head_loop k f' filename (print st (str_rstrip d)))\<rparr>" .
        then have "head_loop k f' filename (print st (str_rstrip d))
              = st\<lparr>stdout := stdout (head_loop k f' filename (print st (str_rstrip d)))\<rparr>"
          by (simp add: print_def)
        with Pair False Some show ?thesis by simp
      qed
    qed
  qed
qed

lemma head_stdout_only: "head st p = st\<lparr>stdout := stdout (head st p)\<rparr>"
  unfolding head_def Let_def
  by (auto simp add: print_def split: option.splits extracted.splits
      intro: head_loop_stdout_only)

lemma wc_stdout_only: "wc st p = st\<lparr>stdout := stdout (wc st p)\<rparr>"
  by (simp add: wc_def Let_def print_def split: option.splits extracted.splits)

lemma ls_fields [simp]:
  "username (ls st) = username st" "log_rows (ls st) = log_rows st"
  "status (ls st) = status st" "current_dir (ls st) = current_dir st"
  "members (ls st) = members st"
  by (subst ls_stdout_only, simp)+

lemma head_fields [simp]:
  "username (head st p) = username st" "log_rows (head st p) = log_rows st"
  "status (head st p) = status st" "current_dir (head st p) = current_dir st"
  "members (head st p) = members st"
  by (subst head_stdout_only, simp)+

lemma wc_fields [simp]:
  "username (wc st p) = username st" "log_rows (wc st p) = log_rows st"
  "status (wc st p) = status st" "current_dir (wc st p) = current_dir st"
  "members (wc st p) = members st"
  by (subst wc_stdout_only, simp)+

lemma cd_fields [simp]:
  "username (cd st p) = username st" "log_rows (cd st p) = log_rows st"
  "status (cd st p) = status st" "members (cd st p) = members st"
  by (simp_all add: cd_def Let_def)

lemma chown_fields [simp]:
  "username (chown st ow p) = username st" "log_rows (chown st ow p) = log_rows st"
  "status (chown st ow p) = status st" "current_dir (chown st ow p) = current_dir st"
  by (simp_all add: chown_def Let_def split: option.splits)

lemma exit_shell_fields [simp]:
  "username (exit_shell st) = username st" "log_rows (exit_shell st) = log_rows st"
  "status (exit_shell st) = Some 0" "current_dir (exit_shell st) = current_dir st"
  "members (exit_shell st) = members st"
  by (simp_all add: exit_shell_def)

section \<open>Stored names with a leading \<open>./\<close>\<close>

text \<open>
  Claim C2.  Every operation that resolves a name against the archive is said to compare
  entry names after stripping a leading \<open>./\<close> from the stored name.  \<open>ls\<close> (and \<open>cd\<close>) do so;
  \<open>head\<close>, \<open>wc\<close> and \<open>chown\<close> strip the prefix from the query only and compare it with the
  stored name as it is.  On the archive whose one entry is stored as \<open>./file1.txt\<close>, \<open>ls\<close>
  lists \<open>file1.txt\<close>, while \<open>head file1.txt\<close>, \<open>wc file1.txt\<close> and \<open>chown bob file1.txt\<close> all
  report that there is no such file, and \<open>chown\<close> changes no owner.
\<close>

theorem dot_slash_entry_not_found:
  "stdout (ls dot_slash_archive) = [lit ''file1.txt  '', [newline]]
   \<and> stdout (head dot_slash_archive (lit ''file1.txt''))
       = [lit ''head: cannot open '' @ [39] @ lit ''file1.txt'' @ [39]
          @ lit '' for reading: No such file or directory'' @ [newline]]
   \<and> stdout (wc dot_slash_archive (lit ''file1.txt''))
       = [lit ''wc: file1.txt: No such file or directory'' @ [newline]]
   \<and> chown dot_slash_archive (lit ''bob'') (lit ''file1.txt'')
       = dot_slash_archive\<lparr>stdout := [lit ''chown: cannot access '' @ [39] @ lit ''file1.txt''
            @ [39] @ lit '': No such file or directory'' @ [newline]]\<rparr>"
  by (simp add: dot_slash_archive_def ls_def head_def wc_def chown_def print_def print_end_def
      Let_def text_defs path_defs)

section \<open>Surplus arguments\<close>

text \<open>
  Claim C10.  Tokens beyond a command's required operands are ignored: a line and any line
  whose tokens are the first line's command and required operands only are executed alike.
  Current directory, archive, output and exit status agree; the two results differ in
  nothing but the log row, which holds each line as it was entered.
\<close>

theorem extra_tokens_ignored:
  assumes "str_split (str_strip line') =
           take (Suc (required_operands (hd (str_split (str_strip line)))))
             (str_split (str_strip line))"
  shows "execute_command st line' =
         (execute_command st line)\<lparr>log_rows := log_rows st @ [[username st, line']]\<rparr>"
proof (cases "str_split (str_strip line)")
  case Nil
  with assms show ?thesis by (simp add: execute_command_def)
next
  case (Cons c rest)
  with assms have a': "str_split (str_strip line') = take (Suc (required_operands c)) (c # rest)"
    by simp
  show ?thesis
    unfolding execute_command_def a' Cons Let_def
    by (simp add: handler_log required_operands_def chown_is_no_other_command nth_Cons')
qed

theorem extra_tokens_ignored_witness:
  "execute_command \<lparr>username = lit ''u'', script_path = [], current_dir = [sep],
       members = [\<lparr>name = lit ''a/f'', uname = [], payload = RegFile []\<rparr>],
       log_rows = [], stdout = [], status = None\<rparr> (lit ''cd a'')
   = (execute_command \<lparr>username = lit ''u'', script_path = [], current_dir = [sep],
       members = [\<lparr>name = lit ''a/f'', uname = [], payload = RegFile []\<rparr>],
       log_rows = [], stdout = [], status = None\<rparr> (lit ''cd a b''))
     \<lparr>log_rows := [[lit ''u'', lit ''cd a'']]\<rparr>"
proof -
  have "str_split (str_strip (lit ''cd a'')) =
        take (Suc (required_operands (hd (str_split (str_strip (lit ''cd a b''))))))
          (str_split (str_strip (lit ''cd a b'')))"
    by (simp add: text_defs required_operands_def)
  from extra_tokens_ignored [OF this] show ?thesis by simp
qed

section \<open>Changing an owner\<close>

lemma chown_loop_None: "chown_loop ow t ms = None \<longleftrightarrow> (\<forall>m \<in> set ms. name m \<noteq> t)"
  by (induction ms) auto

lemma chown_loop_Some:
  "i < length ms \<Longrightarrow> name (ms ! i) = t \<Longrightarrow> (\<forall>j<i. name (ms ! j) \<noteq> t)
   \<Longrightarrow> chown_loop ow t ms = Some (ms[i := (ms ! i)\<lparr>uname := ow\<rparr>])"
proof (induction ms arbitrary: i)
  case Nil
  then show ?case by simp
next
  case (Cons m ms)
  show ?case
  proof (cases i)
    case 0
    with Cons.prems show ?thesis by simp
  next
    case (Suc k)
    with Cons.prems have "name m \<noteq> t" by auto
    moreover have "chown_loop ow t ms = Some (ms[k := (ms ! k)\<lparr>uname := ow\<rparr>])"
      using Cons.prems Suc by (intro Cons.IH) auto
    ultimately show ?thesis using Suc by simp
  qed
qed

lemma chown_loop_again:
  "chown_loop o1 t ms = Some ms' \<Longrightarrow> chown_loop o2 t ms' = chown_loop o2 t ms"
  by (induction ms arbitrary: ms') (auto split: if_splits)

lemma chown_current_dir: "current_dir (chown st ow f) = current_dir st"
  by (simp add: chown_def Let_def print_def split: option.splits)

text \<open>
  Claim C6.  \<open>chown O F\<close>: when no entry has the name \<open>F\<close> resolves to, the error
  \<open>chown: cannot access 'F': No such file or directory\<close> is printed and nothing else
  changes, so no owner is mutated.  Otherwise the first entry of that name gets the owner
  \<open>O\<close>, every other entry is as before, and the confirmation is printed.  A second \<open>chown\<close>
  of the same file leaves the archive as that second \<open>chown\<close> alone would: last write wins.
\<close>

theorem chown_sets_owner_or_reports:
  "((\<forall>m \<in> set (members st). name m \<noteq> resolve_file (current_dir st) filename) \<longrightarrow>
      chown st owner filename =
        print st (lit ''chown: cannot access '' @ [39] @ filename @ [39]
                  @ lit '': No such file or directory''))
   \<and> (\<forall>i < length (members st).
        name (members st ! i) = resolve_file (current_dir st) filename
        \<and> (\<forall>j<i. name (members st ! j) \<noteq> resolve_file (current_dir st) filename) \<longrightarrow>
        chown st owner filename =
          print (st\<lparr>members := (members st)[i := (members st ! i)\<lparr>uname := owner\<rparr>]\<rparr>)
            (lit ''Changed owner of '' @ [39] @ filename @ [39] @ lit '' to ''
             @ [39] @ owner @ [39]))
   \<and> members (chown (chown st owner' filename) owner filename)
       = members (chown st owner filename)"
proof (intro conjI allI impI)
  assume "\<forall>m \<in> set (members st). name m \<noteq> resolve_file (current_dir st) filename"
  then have "chown_loop owner (resolve_file (current_dir st) filename) (members st) = None"
    by (simp add: chown_loop_None)
  then show "chown st owner filename =
        print st (lit ''chown: cannot access '' @ [39] @ filename @ [39]
                  @ lit '': No such file or directory'')"
    by (simp add: chown_def resolve_file_def)
next
  fix i
  assume "i < length (members st)"
    and "name (members st ! i) = resolve_file (current_dir st) filename
        \<and> (\<forall>j<i. name (members st ! j) \<noteq> resolve_file (current_dir st) filename)"
  then have "chown_loop owner (resolve_file (current_dir st) filename) (members st)
             = Some ((members st)[i := (members st ! i)\<lparr>uname := owner\<rparr>])"
    by (intro chown_loop_Some) auto
  then show "chown st owner filename =
          print (st\<lparr>members := (members st)[i := (members st ! i)\<lparr>uname := owner\<rparr>]\<rparr>)
            (lit ''Changed owner of '' @ [39] @ filename @ [39] @ lit '' to ''
             @ [39] @ owner @ [39])"
    by (simp add: chown_def resolve_file_def)
next
  show "members (chown (chown st owner' filename) owner filename)
       = members (chown st owner filename)"
  proof (cases "chown_loop owner' (resolve_file (current_dir st) filename) (members st)")
    case None
    then have "chown_loop owner (resolve_file (current_dir st) filename) (members st) = None"
      by (simp add: chown_loop_None)
    with None show ?thesis
      by (simp add: chown_def resolve_file_def print_def)
  next
    case (Some ms')
    moreover have "chown_loop owner (resolve_file (current_dir st) filename) (members st) \<noteq> None"
      using Some chown_loop_None [of owner' "resolve_file (current_dir st) filename" "members st"]
        chown_loop_None [of owner "resolve_file (current_dir st) filename" "members st"]
      by simp
    ultimately show ?thesis
      using chown_loop_again [OF Some, of owner]
      by (auto simp add: chown_def resolve_file_def print_def split: option.splits)
  qed
qed

theorem chown_sets_owner_or_reports_witness:
  "map uname (members (chown owner_archive (lit ''newowner'') (lit ''file1.txt'')))
     = [lit ''newowner'']
   \<and> chown owner_archive (lit ''newowner'') (lit ''missing.txt'')
     = print owner_archive (lit ''chown: cannot access '' @ [39] @ lit ''missing.txt'' @ [39]
                  @ lit '': No such file or directory'')
   \<and> map uname (members (chown (chown owner_archive (lit ''a'') (lit ''file1.txt''))
          (lit ''b'') (lit ''file1.txt''))) = [lit ''b'']"
proof -
  have r1: "resolve_file (current_dir owner_archive) (lit ''file1.txt'') = lit ''file1.txt''"
    by (simp add: resolve_file_def owner_archive_def text_defs path_defs)
  have r2: "resolve_file (current_dir owner_archive) (lit ''missing.txt'') = lit ''missing.txt''"
    by (simp add: resolve_file_def owner_archive_def text_defs path_defs)
  have ne: "lit ''file1.txt'' \<noteq> lit ''missing.txt''"
    by (simp add: lit_def)
  note t1 = chown_sets_owner_or_reports [of owner_archive "lit ''file1.txt''" "lit ''newowner''"]
  note t2 = chown_sets_owner_or_reports [of owner_archive "lit ''missing.txt''" "lit ''newowner''"]
  note t3 = chown_sets_owner_or_reports [of owner_archive "lit ''file1.txt''" "lit ''b''" "lit ''a''"]
  have a: "chown owner_archive (lit ''newowner'') (lit ''file1.txt'') =
          print (owner_archive\<lparr>members := (members owner_archive)[0 := (members owner_archive ! 0)\<lparr>uname := lit ''newowner''\<rparr>]\<rparr>)
            (lit ''Changed owner of '' @ [39] @ lit ''file1.txt'' @ [39] @ lit '' to ''
             @ [39] @ lit ''newowner'' @ [39])"
    using t1 r1 by (simp add: owner_archive_def)
  have b: "chown owner_archive (lit ''newowner'') (lit ''missing.txt'')
     = print owner_archive (lit ''chown: cannot access '' @ [39] @ lit ''missing.txt'' @ [39]
                  @ lit '': No such file or directory'')"
    using t2 r2 ne by (simp add: owner_archive_def)
  have c0: "chown owner_archive (lit ''b'') (lit ''file1.txt'') =
          print (owner_archive\<lparr>members := (members owner_archive)[0 := (members owner_archive ! 0)\<lparr>uname := lit ''b''\<rparr>]\<rparr>)
            (lit ''Changed owner of '' @ [39] @ lit ''file1.txt'' @ [39] @ lit '' to ''
             @ [39] @ lit ''b'' @ [39])"
    using t3 r1 by (simp add: owner_archive_def)
  have c: "members (chown (chown owner_archive (lit ''a'') (lit ''file1.txt''))
          (lit ''b'') (lit ''file1.txt'')) = members (chown owner_archive (lit ''b'') (lit ''file1.txt''))"
    using t3 by simp
  show ?thesis
    by (simp add: a b c c0 print_def) (simp add: owner_archive_def)
qed

section \<open>The log record\<close>

lemma execute_command_log_rows:
  "log_rows (execute_command st l) = log_rows st @ [[username st, l]]"
  by (simp add: execute_command_def Let_def)

lemma execute_command_username: "username (execute_command st l) = username st"
  by (simp add: execute_command_def Let_def)

lemma commands_differ:
  "lit ''ls'' \<noteq> lit ''exit''" "lit ''cd'' \<noteq> lit ''exit''"
  by (simp_all add: lit_def)

lemma execute_command_status:
  "status (execute_command st l) = (if is_exit l then Some 0 else status st)"
  by (cases "str_split (str_strip l)")
     (auto simp add: execute_command_def Let_def is_exit_def commands_differ)

lemma until_exit_append:
  "until_exit (xs @ ys) = (if \<exists>x \<in> set xs. is_exit x then until_exit xs else xs @ until_exit ys)"
  by (induction xs) auto

lemma until_exit_none: "\<forall>x \<in> set xs. \<not> is_exit x \<Longrightarrow> until_exit xs = xs"
  by (induction xs) auto

lemma script_loop_log:
  "status st = None \<Longrightarrow>
   log_rows (script_loop st cs)
     = log_rows st @ map (\<lambda>l. [username st, l]) (until_exit (filter (\<lambda>c. c \<noteq> []) (map str_strip cs)))
   \<and> username (script_loop st cs) = username st
   \<and> (status (script_loop st cs) \<noteq> None
        \<longleftrightarrow> (\<exists>l \<in> set (filter (\<lambda>c. c \<noteq> []) (map str_strip cs)). is_exit l))"
proof (induction cs arbitrary: st)
  case Nil
  then show ?case by simp
next
  case (Cons c cs)
  show ?case
  proof (cases "str_strip c = []")
    case True
    with Cons show ?thesis by simp
  next
    case False
    show ?thesis
    proof (cases "is_exit (str_strip c)")
      case True
      with False show ?thesis
        by (simp add: Let_def execute_command_status execute_command_log_rows
            execute_command_username)
    next
      case nx: False
      with Cons.prems have "status (execute_command st (str_strip c)) = None"
        by (simp add: execute_command_status)
      from Cons.IH [OF this] nx False Cons.prems show ?thesis
        by (simp add: Let_def execute_command_status execute_command_log_rows
            execute_command_username)
    qed
  qed
qed

lemma prompt_fields [simp]:
  "username (prompt st) = username st" "log_rows (prompt st) = log_rows st"
  "status (prompt st) = status st"
  by (simp_all add: prompt_def)

lemma shell_loop_log:
  "status st = None \<Longrightarrow>
   log_rows (shell_loop st inputs) = log_rows st @ map (\<lambda>l. [username st, l]) (until_exit inputs)"
proof (induction inputs arbitrary: st)
  case Nil
  then show ?case by simp
next
  case (Cons l rest)
  show ?case
  proof (cases "is_exit l")
    case True
    then show ?thesis
      by (simp add: Let_def execute_command_status execute_command_log_rows)
  next
    case False
    with Cons.prems have "status (execute_command (prompt st) l) = None"
      by (simp add: execute_command_status)
    from Cons.IH [OF this] False Cons.prems show ?thesis
      by (simp add: Let_def execute_command_status execute_command_log_rows
          execute_command_username)
  qed
qed

lemma main_log_rows:
  "log_rows (main user ms spath (Some script) inputs)
     = [lit ''User'', lit ''Action''] # map (\<lambda>l. [user, l]) (dispatched script inputs)
   \<and> log_rows (main user ms spath None inputs) = [[lit ''User'', lit ''Action'']]"
proof
  let ?st0 = "\<lparr>username = user, script_path = spath, current_dir = [sep], members = ms,
        log_rows = [[lit ''User'', lit ''Action'']], stdout = [], status = None\<rparr>"
  let ?cs = "filter (\<lambda>c. c \<noteq> []) (map str_strip script)"
  have s0: "status ?st0 = None" by simp
  note sl = script_loop_log [OF s0, of script]
  show "log_rows (main user ms spath (Some script) inputs)
     = [lit ''User'', lit ''Action''] # map (\<lambda>l. [user, l]) (dispatched script inputs)"
  proof (cases "\<exists>l \<in> set ?cs. is_exit l")
    case True
    with sl show ?thesis
      by (simp add: main_def init_def run_startup_script_def dispatched_def until_exit_append)
  next
    case False
    with sl have st: "status (script_loop ?st0 script) = None" by blast
    from False have ue: "until_exit ?cs = ?cs" by (intro until_exit_none) blast
    from sl have lg: "log_rows (script_loop ?st0 script)
        = [lit ''User'', lit ''Action''] # map (\<lambda>l. [user, l]) ?cs"
      and us: "username (script_loop ?st0 script) = user"
      by (simp_all add: ue)
    from False have d: "dispatched script inputs = ?cs @ until_exit inputs"
      unfolding dispatched_def until_exit_append by auto
    show ?thesis
      unfolding main_def init_def run_startup_script_def Let_def d
      using shell_loop_log [OF st, of inputs] st
      by (simp add: lg us)
  qed
  show "log_rows (main user ms spath None inputs) = [[lit ''User'', lit ''Action'']]"
    by (simp add: main_def init_def run_startup_script_def)
qed

text \<open>
  Claim C8, as the code has it.  The log holds the header row \<open>User, Action\<close> and then one
  row, user name and text, for every line that reaches \<open>execute_command\<close>, in order: the
  non-blank lines of the startup script after trimming, then every line typed, as typed,
  up to and including the first \<open>exit\<close>.  Lines that fail validation or name an unknown
  command are recorded like any other.  Without a startup script only the header is
  written.
\<close>

theorem log_record_rows:
  "log_rows (main user ms spath (Some script) inputs)
     = [lit ''User'', lit ''Action''] # map (\<lambda>l. [user, l]) (dispatched script inputs)
   \<and> log_rows (main user ms spath None inputs) = [[lit ''User'', lit ''Action'']]"
  by (rule main_log_rows)

lemma dispatched_example:
  "dispatched [lit ''ls'', []] [lit ''  '', lit ''exit''] = [lit ''ls'', lit ''  '', lit ''exit'']"
  by (simp add: dispatched_def is_exit_def text_defs)

text \<open>
  Claim C8 as stated fails for the lines typed: the interactive loop hands every line to
  \<open>execute_command\<close>, which writes the log row before it looks at the tokens.  A line of
  two spaces typed at the prompt is recorded.
\<close>

theorem blank_line_is_logged:
  "log_rows (main (lit ''user'') [] (lit ''start.sh'') (Some [lit ''ls'', []]) [lit ''  '', lit ''exit''])
   = [[lit ''User'', lit ''Action''], [lit ''user'', lit ''ls''], [lit ''user'', lit ''  ''],
      [lit ''user'', lit ''exit'']]"
  using main_log_rows [of "lit ''user''" "[]" "lit ''start.sh''" "[lit ''ls'', []]" "[lit ''  '', lit ''exit'']"]
  by (simp add: dispatched_example)

section \<open>Listing a directory\<close>

lemma split_sep_nonempty: "split_sep s \<noteq> []"
  by (induction s) (auto split: list.splits)

lemma hd_split_sep: "hd (split_sep s) = first_segment s"
  using split_sep_nonempty
  by (induction s) (auto simp add: first_segment_def split: list.splits)

lemma ls_loop_set:
  "ls_loop prefix ms contents =
     contents \<union> set (filter (\<lambda>s. s \<noteq> [])
            (map (\<lambda>n. first_segment (drop (length prefix) n))
               (filter (\<lambda>n. startswith n prefix)
                  (map (\<lambda>m. normalize_member_name (name m)) ms))))"
  by (induction ms arbitrary: contents) (auto simp add: Let_def hd_split_sep)

lemma ls_contents:
  "ls_loop (dir_prefix (current_dir st)) (members st) {} = children st"
  by (simp add: ls_loop_set children_def)

lemma ls_state:
  "ls st = st\<lparr>stdout := stdout st @ map (\<lambda>item. item @ lit ''  '') (sorted_list_of_set (children st))
                         @ [[newline]]\<rparr>"
proof -
  have "(if strip_sep (current_dir st) \<noteq> [] then strip_sep (current_dir st) @ [sep]
         else strip_sep (current_dir st)) = dir_prefix (current_dir st)"
    by (simp add: dir_prefix_def)
  then show ?thesis
    by (simp add: ls_def Let_def foldl_print_end print_def ls_contents)
qed

text \<open>
  Claim C5, as the code has it.  \<open>ls\<close> changes nothing but the output, to which it adds
  the children of the current directory in lexicographic order, without duplicates, each
  one followed by two spaces, and then a newline.  With no children it prints the bare
  newline.
\<close>

theorem ls_prints_children:
  "ls st = st\<lparr>stdout := stdout st @ map (\<lambda>item. item @ lit ''  '') (sorted_list_of_set (children st))
                         @ [[newline]]\<rparr>
   \<and> sorted (sorted_list_of_set (children st))
   \<and> distinct (sorted_list_of_set (children st))
   \<and> set (sorted_list_of_set (children st)) = children st
   \<and> (children st = {} \<longrightarrow> ls st = st\<lparr>stdout := stdout st @ [[newline]]\<rparr>)"
proof -
  have "finite (children st)" by (simp add: children_def)
  then show ?thesis by (simp add: ls_state)
qed

lemma children_listing: "children listing_archive = {lit ''file3.txt'', lit ''sub''}"
  by (simp add: children_def listing_archive_def dir_prefix_def first_segment_def
      normalize_member_name_def text_defs) 

lemma sorted_listing:
  "sorted_list_of_set {lit ''file3.txt'', lit ''sub''} = [lit ''file3.txt'', lit ''sub'']"
  by (simp add: lit_def)

theorem ls_prints_children_witness:
  "stdout (ls listing_archive) = [lit ''file3.txt  '', lit ''sub  '', [newline]]
   \<and> stdout (ls (listing_archive\<lparr>current_dir := lit ''/nowhere''\<rparr>)) = [[newline]]"
proof -
  have e: "children (listing_archive\<lparr>current_dir := lit ''/nowhere''\<rparr>) = {}"
    by (simp add: children_def listing_archive_def dir_prefix_def first_segment_def
      normalize_member_name_def text_defs)
  have a: "stdout (ls listing_archive) = [lit ''file3.txt  '', lit ''sub  '', [newline]]"
    using ls_prints_children [of listing_archive]
    by (simp add: children_listing sorted_listing) (simp add: lit_def listing_archive_def)
  have b: "stdout (ls (listing_archive\<lparr>current_dir := lit ''/nowhere''\<rparr>)) = [[newline]]"
    using ls_prints_children [of "listing_archive\<lparr>current_dir := lit ''/nowhere''\<rparr>"] e
    by (simp add: listing_archive_def)
  from a b show ?thesis by simp
qed

text \<open>
  Claim C5 as stated has the names separated by two spaces.  The code ends every name,
  the last one too, with two spaces: listing \<open>/dir1\<close> gives \<open>file3.txt  sub  \<close> and the
  newline.
\<close>

theorem ls_trailing_separator:
  "concat (stdout (ls listing_archive)) = lit ''file3.txt  sub  '' @ [newline]
   \<and> concat (stdout (ls listing_archive))
       \<noteq> two_space_separated (sorted_list_of_set (children listing_archive)) @ [newline]"
  by (simp add: ls_state children_listing sorted_listing) (simp add: lit_def listing_archive_def)

section \<open>Normalised paths and changing the directory\<close>

text \<open>
  \<open>normpath\<close> keeps proper components only, so its result is \<open>.\<close> or some slashes before
  components joined by single slashes.
\<close>

lemma split_sep_no_sep: "c \<in> set (split_sep s) \<Longrightarrow> sep \<notin> set c"
  by (induction s arbitrary: c) (auto split: if_splits list.splits)

lemma normpath_step_proper:
  assumes "\<forall>c \<in> set acc. proper c" and "sep \<notin> set x"
  shows "\<forall>c \<in> set (normpath_step k acc x). proper c"
  using assms
  by (auto simp add: normpath_step_def proper_def dest: in_set_butlastD)

lemma normpath_loop_proper:
  "\<forall>c \<in> set acc. proper c \<Longrightarrow> \<forall>x \<in> set xs. sep \<notin> set x
   \<Longrightarrow> \<forall>c \<in> set (foldl (normpath_step k) acc xs). proper c"
proof (induction xs arbitrary: acc)
  case Nil
  then show ?case by simp
next
  case (Cons x xs)
  have "\<forall>c \<in> set (normpath_step k acc x). proper c"
    using Cons.prems by (intro normpath_step_proper) auto
  with Cons show ?case by simp
qed

lemma proper_ends:
  assumes "proper c"
  shows "hd c \<noteq> sep" and "last c \<noteq> sep" and "\<not> startswith (c @ rest) (lit ''./'')"
    and "\<not> startswith (c @ sep # rest) (lit ''./'')"
proof -
  from assms obtain x c' where c: "c = x # c'" by (cases c) (auto simp add: proper_def)
  from assms c show "hd c \<noteq> sep" by (auto simp add: proper_def)
  from assms show "last c \<noteq> sep" unfolding proper_def by (metis last_in_set)
  from assms c show "\<not> startswith (c @ sep # rest) (lit ''./'')"
    by (cases c') (auto simp add: proper_def startswith_def lit_def sep_def dot_def)
  from assms c show "\<not> startswith (c @ rest) (lit ''./'')"
    by (cases c') (auto simp add: proper_def startswith_def lit_def sep_def dot_def)
qed

lemma join_sep_proper:
  "cs \<noteq> [] \<Longrightarrow> \<forall>c \<in> set cs. proper c
   \<Longrightarrow> join_sep cs \<noteq> [] \<and> hd (join_sep cs) \<noteq> sep \<and> last (join_sep cs) \<noteq> sep
       \<and> \<not> startswith (join_sep cs) (lit ''./'')"
proof (induction cs rule: join_sep.induct)
  case 1
  then show ?case by simp
next
  case (2 c)
  then have p: "proper c" by simp
  from proper_ends(1,2) [OF p] proper_ends(3) [OF p, of "[]"] p show ?case
    by (simp add: proper_def)
next
  case (3 c d cs)
  then have p: "proper c" by simp
  from 3 have ih: "join_sep (d # cs) \<noteq> [] \<and> last (join_sep (d # cs)) \<noteq> sep" by simp
  from proper_ends(1) [OF p] proper_ends(4) [OF p, of "join_sep (d # cs)"] p ih show ?case
    by (simp add: proper_def)
qed

lemma strip_leading_seps:
  assumes "j = [] \<or> (hd j \<noteq> sep \<and> last j \<noteq> sep)"
  shows "lstrip_sep (replicate k sep @ j) = j" and "strip_sep (replicate k sep @ j) = j"
proof -
  have d: "dropWhile (\<lambda>c. c = sep) j = j"
    using assms by (cases j) auto
  have "dropWhile (\<lambda>c. c = sep) (replicate k sep @ j) = dropWhile (\<lambda>c. c = sep) j"
    by (induction k) auto
  with d show l: "lstrip_sep (replicate k sep @ j) = j"
    by (simp add: lstrip_sep_def)
  have "dropWhile (\<lambda>c. c = sep) (rev j) = rev j"
    using assms by (cases j rule: rev_cases) auto
  then have "rstrip_sep j = j" by (simp add: rstrip_sep_def)
  with l show "strip_sep (replicate k sep @ j) = j"
    by (simp add: strip_sep_def)
qed

lemma normpath_shape:
  "os_path_normpath p = dot \<or>
   (\<exists>k j. os_path_normpath p = replicate k sep @ j
      \<and> (j = [] \<or> (hd j \<noteq> sep \<and> last j \<noteq> sep \<and> \<not> startswith j (lit ''./''))))"
proof (cases "p = []")
  case True
  then show ?thesis by (simp add: os_path_normpath_def)
next
  case False
  define k :: nat where "k = (if startswith p [sep]
               then (if startswith p [sep, sep] \<and> \<not> startswith p [sep, sep, sep]
                     then 2 else 1)
               else 0)"
  define cs where "cs = foldl (normpath_step k) [] (split_sep p)"
  have pr: "\<forall>c \<in> set cs. proper c"
    unfolding cs_def by (intro normpath_loop_proper) (auto dest: split_sep_no_sep)
  have j: "join_sep cs = [] \<or> (hd (join_sep cs) \<noteq> sep \<and> last (join_sep cs) \<noteq> sep
       \<and> \<not> startswith (join_sep cs) (lit ''./''))"
    using join_sep_proper [OF _ pr] by (cases "cs = []") auto
  have r: "os_path_normpath p =
      (if (if k \<noteq> 0 then replicate k sep @ join_sep cs else join_sep cs) = [] then dot
       else (if k \<noteq> 0 then replicate k sep @ join_sep cs else join_sep cs))"
    unfolding os_path_normpath_def Let_def cs_def k_def using False by simp
  show ?thesis
  proof (cases "(if k \<noteq> 0 then replicate k sep @ join_sep cs else join_sep cs) = []")
    case True
    with r show ?thesis by simp
  next
    case ne: False
    have "os_path_normpath p = replicate k sep @ join_sep cs"
      using r ne by (cases "k = 0") auto
    with j show ?thesis by blast
  qed
qed

lemma normpath_prefix:
  "normalize_member_name (strip_sep (os_path_normpath p)) = lstrip_sep (os_path_normpath p)"
proof -
  from normpath_shape [of p] consider
    (d) "os_path_normpath p = dot"
  | (s) k j where "os_path_normpath p = replicate k sep @ j"
      "j = [] \<or> (hd j \<noteq> sep \<and> last j \<noteq> sep \<and> \<not> startswith j (lit ''./''))"
    by blast
  then show ?thesis
  proof cases
    case d
    then show ?thesis
      by (simp add: normalize_member_name_def text_defs)
  next
    case s
    from s(2) have "j = [] \<or> (hd j \<noteq> sep \<and> last j \<noteq> sep)" by blast
    from strip_leading_seps [OF this, of k] s show ?thesis
      by (auto simp add: normalize_member_name_def startswith_def lit_def)
  qed
qed

lemma cd_loop_ex:
  "cd_loop prefix ms \<longleftrightarrow> (\<exists>m \<in> set ms. startswith (normalize_member_name (name m)) prefix)"
  by (induction ms) auto

text \<open>
  The three branches of \<open>cd P\<close>.  When \<open>P\<close> resolves to the path \<open>/\<close>, the current
  directory becomes \<open>/\<close>.  Otherwise, when the stripped name of some entry starts with the
  resolved path, taken without its leading separators, and a separator, the current
  directory becomes the resolved path.  Otherwise \<open>cd: P: No such file or directory\<close> is
  printed and the current directory stays as it is.
\<close>

lemma cd_branches:
  "(resolve_dir (current_dir st) path = [sep] \<longrightarrow> cd st path = st\<lparr>current_dir := [sep]\<rparr>)
   \<and> (resolve_dir (current_dir st) path \<noteq> [sep]
        \<and> (\<exists>m \<in> set (members st). startswith (normalize_member_name (name m))
               (lstrip_sep (resolve_dir (current_dir st) path) @ [sep])) \<longrightarrow>
        cd st path = st\<lparr>current_dir := resolve_dir (current_dir st) path\<rparr>)
   \<and> (resolve_dir (current_dir st) path \<noteq> [sep]
        \<and> \<not> (\<exists>m \<in> set (members st). startswith (normalize_member_name (name m))
               (lstrip_sep (resolve_dir (current_dir st) path) @ [sep])) \<longrightarrow>
        cd st path = print st (lit ''cd: '' @ path @ lit '': No such file or directory'')
        \<and> current_dir (cd st path) = current_dir st)"
  by (simp add: cd_def Let_def resolve_dir_def normpath_prefix cd_loop_ex)

lemma cd_branches_example:
  "cd listing_archive (lit ''..'') = listing_archive\<lparr>current_dir := lit ''/''\<rparr>
   \<and> cd listing_archive (lit ''sub'') = listing_archive\<lparr>current_dir := lit ''/dir1/sub''\<rparr>
   \<and> cd listing_archive (lit ''nonexistent'')
      = print listing_archive (lit ''cd: nonexistent: No such file or directory'')
   \<and> current_dir (cd listing_archive (lit ''nonexistent'')) = lit ''/dir1''"
proof -
  have r1: "resolve_dir (current_dir listing_archive) (lit ''..'') = [sep]"
    by (simp add: resolve_dir_def listing_archive_def text_defs path_defs)
  have r2: "resolve_dir (current_dir listing_archive) (lit ''sub'') = lit ''/dir1/sub''"
    by (simp add: resolve_dir_def listing_archive_def text_defs path_defs)
  have r3: "resolve_dir (current_dir listing_archive) (lit ''nonexistent'') = lit ''/dir1/nonexistent''"
    by (simp add: resolve_dir_def listing_archive_def text_defs path_defs)
  have e2: "\<exists>m \<in> set (members listing_archive). startswith (normalize_member_name (name m))
               (lstrip_sep (lit ''/dir1/sub'') @ [sep])"
    by (simp add: listing_archive_def text_defs path_defs)
  have e3: "\<not> (\<exists>m \<in> set (members listing_archive). startswith (normalize_member_name (name m))
               (lstrip_sep (lit ''/dir1/nonexistent'') @ [sep]))"
    by (simp add: listing_archive_def text_defs path_defs)
  have n2: "lit ''/dir1/sub'' \<noteq> [sep]" and n3: "lit ''/dir1/nonexistent'' \<noteq> [sep]"
    by (simp_all add: lit_def)
  have a: "cd listing_archive (lit ''..'') = listing_archive\<lparr>current_dir := lit ''/''\<rparr>"
    using cd_branches [of listing_archive "lit ''..''"] r1 by (simp add: lit_def sep_def)
  have b: "cd listing_archive (lit ''sub'') = listing_archive\<lparr>current_dir := lit ''/dir1/sub''\<rparr>"
    using cd_branches [of listing_archive "lit ''sub''"] e2 n2 unfolding r2 by blast
  have c: "cd listing_archive (lit ''nonexistent'')
      = print listing_archive (lit ''cd: nonexistent: No such file or directory'')
      \<and> current_dir (cd listing_archive (lit ''nonexistent'')) = current_dir listing_archive"
    using cd_branches [of listing_archive "lit ''nonexistent''"] e3 n3 unfolding r3
    by (simp add: lit_def)
  have d: "current_dir listing_archive = lit ''/dir1''" by (simp add: listing_archive_def)
  from a b c d show ?thesis by simp
qed

section \<open>Counting lines, words and bytes\<close>

text \<open>
  The decoder never yields a surrogate, so what \<open>decode\<close> with replacement returns can
  always be encoded again.
\<close>

lemma encode_cp_None: "encode_cp c = None \<longleftrightarrow> 55296 \<le> c \<and> c \<le> 57343"
  by (simp add: encode_cp_def)

lemma surrogate_gap:
  fixes a x y :: nat
  assumes "55296 \<le> (a - 224) * 4096 + (x - 128) * 64 + y - 128"
    and "(a - 224) * 4096 + (x - 128) * 64 + y - 128 \<le> 57343"
    and "\<not> a < 224" "x < 160" "128 \<le> x" "128 \<le> y" "y < 192"
  shows False
proof -
  obtain u where u: "a = 224 + u" using assms(3) by (metis le_add_diff_inverse not_less)
  obtain v where v: "x = 128 + v" using assms(5) by (metis le_add_diff_inverse)
  obtain w where w: "y = 128 + w" using assms(6) by (metis le_add_diff_inverse)
  from assms(4) v have v32: "v < 32" by simp
  from assms(7) w have w64: "w < 64" by simp
  from assms(1,2) have lo: "55296 \<le> u * 4096 + v * 64 + w" and hi: "u * 4096 + v * 64 + w \<le> 57343"
    by (simp_all add: u v w)
  show False
  proof (cases "u \<le> 13")
    case True
    then have "u * 4096 \<le> 13 * 4096" by (rule mult_le_mono1)
    with lo v32 w64 show False by simp
  next
    case False
    then have "14 \<le> u" by simp
    then have "14 * 4096 \<le> u * 4096" by (rule mult_le_mono1)
    with hi show False by simp
  qed
qed

lemma utf8_next_encodable: "utf8_next bs = (Some c, n) \<Longrightarrow> \<not> (55296 \<le> c \<and> c \<le> 57343)"
  apply (cases bs)
   apply simp
  apply (auto simp add: is_cont_def split: if_splits list.splits)
  apply (rule surrogate_gap, assumption+)
  done


lemma utf8_scan_encodable: "Some c \<in> set (utf8_scan k bs) \<Longrightarrow> encode_cp c \<noteq> None"
proof (induction k bs rule: utf8_scan.induct)
  case (1 k)
  then show ?case by simp
next
  case (2 k b bs)
  then show ?case by simp
next
  case (3 b bs)
  obtain r n where rn: "utf8_next (b # bs) = (r, n)" by (cases "utf8_next (b # bs)")
  from 3 rn have "r = Some c \<or> Some c \<in> set (utf8_scan (n - 1) bs)"
    by (auto simp del: utf8_next.simps)
  then show ?case
  proof
    assume "r = Some c"
    with rn have "utf8_next (b # bs) = (Some c, n)" by (simp del: utf8_next.simps)
    then show ?thesis using utf8_next_encodable encode_cp_None by blast
  next
    assume "Some c \<in> set (utf8_scan (n - 1) bs)"
    with "3.IH" [OF rn [symmetric]] show ?thesis by simp
  qed
qed

lemma encode_utf8_total: "\<forall>c \<in> set cs. encode_cp c \<noteq> None \<Longrightarrow> encode_utf8 cs \<noteq> None"
  by (induction cs) (auto split: option.splits)

lemma encode_decode_replace: "encode_utf8 (decode_replace f) \<noteq> None"
proof (rule encode_utf8_total, rule ballI)
  fix c assume "c \<in> set (decode_replace f)"
  then obtain r where r: "r \<in> set (utf8_scan 0 f)"
    and c: "c = (case r of None \<Rightarrow> 65533 | Some c \<Rightarrow> c)"
    by (auto simp add: decode_replace_def)
  show "encode_cp c \<noteq> None"
  proof (cases r)
    case None
    with c show ?thesis by (simp add: encode_cp_def)
  next
    case (Some d)
    with r c utf8_scan_encodable [of d 0 f] show ?thesis by simp
  qed
qed

text \<open>
  Claim C3.  For a file that exists (the operand resolves to a member with data), \<open>wc\<close>
  decodes with replacement, the re-encoding succeeds, and the one line printed is the
  number of newline characters, the number of white-space separated words, the length of
  the re-encoding and the operand as typed, separated by single spaces.  For an empty file
  that line is \<open>0 0 0\<close> and the operand.
\<close>

theorem wc_counts:
  assumes "getmember (members st) (resolve_file (current_dir st) filename) = Some m"
    and "payload m = RegFile f"
  shows "(\<exists>b. encode_utf8 (decode_replace f) = Some b
           \<and> wc st filename =
               print st (str_of_nat (count_list (decode_replace f) newline) @ lit '' ''
                         @ str_of_nat (length (str_split (decode_replace f))) @ lit '' ''
                         @ str_of_nat (length b) @ lit '' '' @ filename))
         \<and> (f = [] \<longrightarrow> wc st filename = print st (lit ''0 0 0 '' @ filename))"
proof -
  from encode_decode_replace [of f] obtain b where b: "encode_utf8 (decode_replace f) = Some b"
    by blast
  have w: "wc st filename =
               print st (str_of_nat (count_list (decode_replace f) newline) @ lit '' ''
                         @ str_of_nat (length (str_split (decode_replace f))) @ lit '' ''
                         @ str_of_nat (length b) @ lit '' '' @ filename)"
    using assms b by (simp add: wc_def Let_def resolve_file_def)
  have "f = [] \<Longrightarrow> wc st filename = print st (lit ''0 0 0 '' @ filename)"
  proof -
    assume e: "f = []"
    with b have "b = []" by (simp add: decode_replace_def)
    with w e show ?thesis
      by (simp add: decode_replace_def str_split_def str_of_nat.simps lit_def)
  qed
  with b w show ?thesis by blast
qed

lemma file1_decoded:
  "decode_replace (lit ''Hello World'' @ [newline] @ lit ''This is a test'' @ [newline])
   = lit ''Hello World'' @ [newline] @ lit ''This is a test'' @ [newline]"
  by (simp add: decode_replace_def lit_def newline_def)

lemma file1_encoded:
  "encode_utf8 (lit ''Hello World'' @ [newline] @ lit ''This is a test'' @ [newline])
   = Some (lit ''Hello World'' @ [newline] @ lit ''This is a test'' @ [newline])"
  by (simp add: encode_cp_def lit_def newline_def)

lemma file1_words:
  "str_split (lit ''Hello World'' @ [newline] @ lit ''This is a test'' @ [newline])
   = [lit ''Hello'', lit ''World'', lit ''This'', lit ''is'', lit ''a'', lit ''test'']"
  by (simp add: str_split_def isspace_def lit_def newline_def)

theorem wc_counts_witness:
  "wc wc_archive (lit ''file1.txt'') = print wc_archive (lit ''2 6 27 file1.txt'')
   \<and> wc wc_archive (lit ''empty.txt'') = print wc_archive (lit ''0 0 0 empty.txt'')"
proof -
  have g1: "getmember (members wc_archive) (resolve_file (current_dir wc_archive) (lit ''file1.txt''))
        = Some \<lparr>name = lit ''file1.txt'', uname = lit ''root'',
                  payload = RegFile (lit ''Hello World'' @ [newline] @ lit ''This is a test''
                                     @ [newline])\<rparr>"
    by (simp add: wc_archive_def resolve_file_def text_defs path_defs)
  have g2: "getmember (members wc_archive) (resolve_file (current_dir wc_archive) (lit ''empty.txt''))
        = Some \<lparr>name = lit ''empty.txt'', uname = lit ''root'', payload = RegFile []\<rparr>"
    by (simp add: wc_archive_def resolve_file_def text_defs path_defs)
  have n: "str_of_nat 2 = lit ''2''" "str_of_nat 6 = lit ''6''" "str_of_nat 27 = lit ''27''"
    by (simp_all add: str_of_nat.simps lit_def)
  have c: "count_list (lit ''Hello World'' @ [newline] @ lit ''This is a test'' @ [newline]) newline = 2"
    by (simp add: lit_def newline_def)
  have p1: "payload \<lparr>name = lit ''file1.txt'', uname = lit ''root'',
                  payload = RegFile (lit ''Hello World'' @ [newline] @ lit ''This is a test''
                                     @ [newline])\<rparr>
            = RegFile (lit ''Hello World'' @ [newline] @ lit ''This is a test'' @ [newline])"
    by simp
  have p2: "payload \<lparr>name = lit ''empty.txt'', uname = lit ''root'', payload = RegFile []\<rparr>
            = RegFile []"
    by simp
  have w6: "length [lit ''Hello'', lit ''World'', lit ''This'', lit ''is'', lit ''a'', lit ''test''] = 6"
    by simp
  have l27: "length (lit ''Hello World'' @ [newline] @ lit ''This is a test'' @ [newline]) = 27"
    by (simp add: lit_def)
  from wc_counts [OF g1 p1, unfolded file1_decoded file1_encoded file1_words c w6]
  obtain b where b: "Some (lit ''Hello World'' @ [newline] @ lit ''This is a test'' @ [newline])
                     = Some b"
    and w: "wc wc_archive (lit ''file1.txt'') =
            print wc_archive (str_of_nat 2 @ lit '' '' @ str_of_nat 6 @ lit '' ''
                              @ str_of_nat (length b) @ lit '' '' @ lit ''file1.txt'')"
    by blast
  from b l27 have "length b = 27" by (metis option.inject)
  with w have a: "wc wc_archive (lit ''file1.txt'') = print wc_archive (lit ''2 6 27 file1.txt'')"
    by (simp add: n) (simp add: lit_def)
  have b: "wc wc_archive (lit ''empty.txt'') = print wc_archive (lit ''0 0 0 empty.txt'')"
    using wc_counts [OF g2 p2] by (simp add: lit_def)
  from a b show ?thesis by simp
qed

section \<open>The first lines of a file\<close>

text \<open>
  A newline byte is never part of a multi-byte sequence, so a file that is valid UTF-8 is
  valid line by line.
\<close>

lemma readline_fst_empty: "fst (readline f) = [] \<longleftrightarrow> f = []"
  by (cases f) (auto split: prod.splits)

lemma readlines_readline:
  "f \<noteq> [] \<Longrightarrow> readlines f = fst (readline f) # readlines (snd (readline f))"
proof (induction f)
  case Nil
  then show ?case by simp
next
  case (Cons b bs)
  show ?case
  proof (cases "b = newline")
    case True
    then show ?thesis by simp
  next
    case False
    show ?thesis
    proof (cases "bs = []")
      case True
      with False show ?thesis by simp
    next
      case ne: False
      from Cons.IH [OF ne] False show ?thesis
        by (simp split: prod.splits)
    qed
  qed
qed

lemma readline_shape:
  "readline f = (l, r) \<Longrightarrow>
     f = l @ r \<and> ((\<exists>xs. l = xs @ [newline] \<and> newline \<notin> set xs) \<or> (r = [] \<and> newline \<notin> set l))"
proof (induction f arbitrary: l r)
  case Nil
  then show ?case by simp
next
  case (Cons b bs)
  show ?case
  proof (cases "b = newline")
    case True
    with Cons.prems show ?thesis by auto
  next
    case False
    obtain l' r' where lr: "readline bs = (l', r')" by (cases "readline bs")
    from Cons.IH [OF lr] Cons.prems lr False show ?thesis
      by (auto simp add: Cons_eq_append_conv)
  qed
qed

lemma next_in_line:
  "utf8_next (x # xs @ newline # ys) = (Some c, n)
   \<Longrightarrow> n - 1 \<le> length xs \<and> utf8_next (x # xs @ zs) = (Some c, n)"
  apply (cases xs)
   apply (auto simp add: is_cont_def newline_def split: if_splits)[1]
  subgoal for a xs1
    apply (cases xs1)
     apply (auto simp add: is_cont_def newline_def split: if_splits)[1]
    subgoal for b xs2
      apply (cases xs2)
       apply (auto simp add: is_cont_def newline_def split: if_splits)[1]
      apply (auto simp add: is_cont_def newline_def split: if_splits)[1]
      done
    done
  done


lemma scan_line_split:
  "k \<le> length xs \<Longrightarrow> None \<notin> set (utf8_scan k (xs @ newline # ys))
   \<Longrightarrow> None \<notin> set (utf8_scan k (xs @ [newline])) \<and> None \<notin> set (utf8_scan 0 ys)"
proof (induction xs arbitrary: k)
  case Nil
  then show ?case by (simp add: newline_def)
next
  case (Cons x xs)
  show ?case
  proof (cases k)
    case (Suc k')
    with Cons.prems Cons.IH [of k'] show ?thesis by simp
  next
    case 0
    obtain r n where rn: "utf8_next (x # xs @ newline # ys) = (r, n)"
      by (cases "utf8_next (x # xs @ newline # ys)")
    from Cons.prems 0 rn have r: "r \<noteq> None"
      and rest: "None \<notin> set (utf8_scan (n - 1) (xs @ newline # ys))"
      by (cases r; simp del: utf8_next.simps)+
    from r obtain c where c: "r = Some c" by blast
    from rn c next_in_line [of x xs ys c n "[newline]"]
    have len: "n - 1 \<le> length xs" and nx: "utf8_next (x # xs @ [newline]) = (Some c, n)"
      by (simp_all del: utf8_next.simps)
    from Cons.IH [OF len rest] nx 0 show ?thesis
      by (simp del: utf8_next.simps)
  qed
qed

lemma valid_utf8_scan: "valid_utf8 b \<longleftrightarrow> None \<notin> set (utf8_scan 0 b)"
  by (simp add: valid_utf8_def decode_strict_def Let_def)

lemma valid_lines: "valid_utf8 f \<Longrightarrow> \<forall>l \<in> set (readlines f). valid_utf8 l"
proof (induction f rule: length_induct)
  case (1 f)
  show ?case
  proof (cases "f = []")
    case True
    then show ?thesis by simp
  next
    case False
    obtain l r where lr: "readline f = (l, r)" by (cases "readline f")
    from readlines_readline [OF False] lr have rl: "readlines f = l # readlines r" by simp
    from readline_fst_empty [of f] lr False have lne: "l \<noteq> []" by simp
    from readline_shape [OF lr] have f: "f = l @ r"
      and sh: "(\<exists>xs. l = xs @ [newline] \<and> newline \<notin> set xs) \<or> (r = [] \<and> newline \<notin> set l)"
      by blast+
    from sh show ?thesis
    proof
      assume "\<exists>xs. l = xs @ [newline] \<and> newline \<notin> set xs"
      then obtain xs where l: "l = xs @ [newline]" by blast
      with f have "f = xs @ newline # r" by simp
      with "1.prems" scan_line_split [of 0 xs r] l
      have vl: "valid_utf8 l" and vr: "valid_utf8 r"
        by (simp_all add: valid_utf8_scan)
      from f lne have "length r < length f" by simp
      with "1.IH" vr have "\<forall>l \<in> set (readlines r). valid_utf8 l" by blast
      with vl rl show ?thesis by simp
    next
      assume "r = [] \<and> newline \<notin> set l"
      with f "1.prems" rl show ?thesis by simp
    qed
  qed
qed

lemma head_loop_out:
  "head_loop k f fn st =
     st\<lparr>stdout := stdout st @ map shown (takeWhile valid_utf8 (take k (readlines f)))
          @ (if \<exists>l \<in> set (take k (readlines f)). \<not> valid_utf8 l then [head_error fn] else [])\<rparr>"
proof (induction k arbitrary: f st)
  case 0
  then show ?case by simp
next
  case (Suc k)
  show ?case
  proof (cases "f = []")
    case True
    then show ?thesis by simp
  next
    case False
    obtain l r where lr: "readline f = (l, r)" by (cases "readline f")
    from readlines_readline [OF False] lr have rl: "readlines f = l # readlines r" by simp
    from readline_fst_empty [of f] lr False have lne: "l \<noteq> []" by simp
    show ?thesis
    proof (cases "decode_strict l")
      case None
      with lr lne rl show ?thesis
        by (simp add: valid_utf8_def head_error_def print_def)
    next
      case (Some d)
      with lr lne rl Suc [of r "print st (str_rstrip d)"] show ?thesis
        by (simp add: valid_utf8_def shown_def print_def)
    qed
  qed
qed


lemma head_out:
  assumes "getmember (members st) (resolve_file (current_dir st) filename) = Some m"
    and "payload m = RegFile f"
  shows "head st filename =
     st\<lparr>stdout := stdout st @ map shown (takeWhile valid_utf8 (take 10 (readlines f)))
          @ (if \<exists>l \<in> set (take 10 (readlines f)). \<not> valid_utf8 l
             then [head_error filename] else [])\<rparr>"
  using assms by (simp add: head_def Let_def resolve_file_def head_loop_out)

text \<open>
  Claim C7, as the code has it.  For an existing file whose content is valid UTF-8, \<open>head\<close>
  changes nothing but the output, to which it adds the first ten lines of the file, or all
  of them when there are fewer: \<open>min n 10\<close> lines.  Each is shown decoded, with all its
  trailing white space removed, the newline included.
\<close>

theorem head_prints_first_lines:
  assumes "getmember (members st) (resolve_file (current_dir st) filename) = Some m"
    and "payload m = RegFile f"
    and "valid_utf8 f"
  shows "head st filename = st\<lparr>stdout := stdout st @ map shown (take 10 (readlines f))\<rparr>
         \<and> length (take 10 (readlines f)) = min (length (readlines f)) 10
         \<and> (\<forall>l \<in> set (take 10 (readlines f)).
               \<exists>d. decode_strict l = Some d \<and> shown l = str_rstrip d @ [newline])"
proof -
  from valid_lines [OF assms(3)] have v: "\<forall>l \<in> set (take 10 (readlines f)). valid_utf8 l"
    by (auto dest: in_set_takeD)
  then have tw: "takeWhile valid_utf8 (take 10 (readlines f)) = take 10 (readlines f)"
    by (simp add: takeWhile_eq_all_conv)
  from head_out [OF assms(1,2)] v tw
  have "head st filename = st\<lparr>stdout := stdout st @ map shown (take 10 (readlines f))\<rparr>"
    by simp
  moreover from v have "\<forall>l \<in> set (take 10 (readlines f)).
               \<exists>d. decode_strict l = Some d \<and> shown l = str_rstrip d @ [newline]"
    by (auto simp add: valid_utf8_def shown_def)
  ultimately show ?thesis by simp
qed

text \<open>
  Claim C4, as the code has it.  \<open>head\<close> decodes line by line.  When one of the first ten
  lines is not valid UTF-8, the lines before the first such line are shown, then the
  error \<open>invalid encoding\<close> is printed and nothing after it.  When the first line is the
  invalid one, no line of the file is shown.
\<close>

theorem head_decode_error:
  assumes "getmember (members st) (resolve_file (current_dir st) filename) = Some m"
    and "payload m = RegFile f"
    and "\<exists>l \<in> set (take 10 (readlines f)). \<not> valid_utf8 l"
  shows "head st filename =
           st\<lparr>stdout := stdout st @ map shown (takeWhile valid_utf8 (take 10 (readlines f)))
                @ [head_error filename]\<rparr>
         \<and> (\<not> valid_utf8 (hd (readlines f)) \<longrightarrow>
              head st filename = st\<lparr>stdout := stdout st @ [head_error filename]\<rparr>)"
proof -
  from head_out [OF assms(1,2)] assms(3)
  have h: "head st filename =
           st\<lparr>stdout := stdout st @ map shown (takeWhile valid_utf8 (take 10 (readlines f)))
                @ [head_error filename]\<rparr>"
    by simp
  have "\<not> valid_utf8 (hd (readlines f)) \<Longrightarrow>
        takeWhile valid_utf8 (take 10 (readlines f)) = []"
    by (cases "readlines f") simp_all
  with h show ?thesis by simp
qed

lemma head_archive_members:
  "getmember (members head_archive) (resolve_file (current_dir head_archive) (lit ''file1.txt''))
     = Some \<lparr>name = lit ''file1.txt'', uname = lit ''root'', payload = RegFile file1_content\<rparr>"
  "getmember (members head_archive) (resolve_file (current_dir head_archive) (lit ''binaryfile''))
     = Some \<lparr>name = lit ''binaryfile'', uname = lit ''root'', payload = RegFile binary_content\<rparr>"
  "getmember (members head_archive) (resolve_file (current_dir head_archive) (lit ''mixed''))
     = Some \<lparr>name = lit ''mixed'', uname = lit ''root'', payload = RegFile mixed_content\<rparr>"
  "getmember (members head_archive) (resolve_file (current_dir head_archive) (lit ''spaces''))
     = Some \<lparr>name = lit ''spaces'', uname = lit ''root'', payload = RegFile spaces_content\<rparr>"
  by (simp_all add: head_archive_def resolve_file_def text_defs path_defs)

lemmas decode_defs = valid_utf8_def decode_strict_def shown_def shown_by_spec_def
  strip_newline_def head_error_def is_cont_def

lemma file1_lines:
  "valid_utf8 file1_content"
  "map shown (take 10 (readlines file1_content))
     = [lit ''Hello World'' @ [newline], lit ''This is a test'' @ [newline]]"
  by (simp_all add: file1_content_def decode_defs text_defs)

lemma binary_lines:
  "readlines binary_content = [binary_content]" "\<not> valid_utf8 binary_content"
  by (simp_all add: binary_content_def decode_defs text_defs)

lemma mixed_lines:
  "\<not> valid_utf8 mixed_content"
  "\<exists>l \<in> set (take 10 (readlines mixed_content)). \<not> valid_utf8 l"
  "map shown (takeWhile valid_utf8 (take 10 (readlines mixed_content))) = [lit ''ok'' @ [newline]]"
  by (simp_all add: mixed_content_def decode_defs text_defs)

lemma spaces_lines:
  "valid_utf8 spaces_content"
  "\<forall>l \<in> set (take 10 (readlines spaces_content)). valid_utf8 l"
  "map shown (takeWhile valid_utf8 (take 10 (readlines spaces_content))) = [lit ''a'' @ [newline]]"
  "map shown_by_spec (take 10 (readlines spaces_content)) = [lit ''a '' @ [newline]]"
  by (simp_all add: spaces_content_def decode_defs text_defs)

theorem head_prints_first_lines_witness:
  "head head_archive (lit ''file1.txt'')
   = head_archive\<lparr>stdout := [lit ''Hello World'' @ [newline], lit ''This is a test'' @ [newline]]\<rparr>"
proof -
  have p: "payload \<lparr>name = lit ''file1.txt'', uname = lit ''root'', payload = RegFile file1_content\<rparr>
           = RegFile file1_content" by simp
  from head_prints_first_lines [OF head_archive_members(1) p file1_lines(1)]
  have "head head_archive (lit ''file1.txt'')
        = head_archive\<lparr>stdout := stdout head_archive @ map shown (take 10 (readlines file1_content))\<rparr>"
    by blast
  then show ?thesis unfolding file1_lines(2) by (simp add: head_archive_def)
qed

theorem head_decode_error_witness:
  "head head_archive (lit ''binaryfile'')
   = head_archive\<lparr>stdout := [head_error (lit ''binaryfile'')]\<rparr>
   \<and> head head_archive (lit ''mixed'')
   = head_archive\<lparr>stdout := [lit ''ok'' @ [newline], head_error (lit ''mixed'')]\<rparr>"
proof -
  have p1: "payload \<lparr>name = lit ''binaryfile'', uname = lit ''root'', payload = RegFile binary_content\<rparr>
           = RegFile binary_content" by simp
  have p2: "payload \<lparr>name = lit ''mixed'', uname = lit ''root'', payload = RegFile mixed_content\<rparr>
           = RegFile mixed_content" by simp
  have e1: "\<exists>l \<in> set (take 10 (readlines binary_content)). \<not> valid_utf8 l"
    unfolding binary_lines(1) using binary_lines(2) by simp
  have h1: "\<not> valid_utf8 (hd (readlines binary_content))"
    unfolding binary_lines(1) using binary_lines(2) by simp
  from head_decode_error [OF head_archive_members(2) p1 e1] h1
  have "head head_archive (lit ''binaryfile'')
        = head_archive\<lparr>stdout := stdout head_archive @ [head_error (lit ''binaryfile'')]\<rparr>"
    by blast
  then have a: "head head_archive (lit ''binaryfile'')
           = head_archive\<lparr>stdout := [head_error (lit ''binaryfile'')]\<rparr>"
    by (simp add: head_archive_def)
  from head_decode_error [OF head_archive_members(3) p2 mixed_lines(2)]
  have "head head_archive (lit ''mixed'')
        = head_archive\<lparr>stdout := stdout head_archive
             @ map shown (takeWhile valid_utf8 (take 10 (readlines mixed_content)))
             @ [head_error (lit ''mixed'')]\<rparr>"
    by blast
  then have b: "head head_archive (lit ''mixed'')
   = head_archive\<lparr>stdout := [lit ''ok'' @ [newline], head_error (lit ''mixed'')]\<rparr>"
    unfolding mixed_lines(3) by (simp add: head_archive_def)
  from a b show ?thesis by simp
qed

text \<open>
  Claim C4 as stated fails when the invalid bytes come after a valid line: for the
  content \<open>ok\<close>, newline, \<open>0xFF\<close>, newline, which is not valid UTF-8, the line \<open>ok\<close> is
  shown before the error.
\<close>

theorem head_prints_lines_before_error:
  "\<not> valid_utf8 mixed_content
   \<and> stdout (head head_archive (lit ''mixed''))
       = [lit ''ok'' @ [newline], head_error (lit ''mixed'')]"
proof -
  have p2: "payload \<lparr>name = lit ''mixed'', uname = lit ''root'', payload = RegFile mixed_content\<rparr>
           = RegFile mixed_content" by simp
  have "stdout (head head_archive (lit ''mixed''))
       = [lit ''ok'' @ [newline], head_error (lit ''mixed'')]"
    unfolding head_out [OF head_archive_members(3) p2] mixed_lines(3)
    using mixed_lines(2) by (simp add: head_archive_def)
  with mixed_lines(1) show ?thesis by simp
qed

text \<open>
  Claim C7 as stated has each line shown with its trailing newline removed.  \<open>rstrip\<close>
  removes all trailing white space: the line \<open>a\<close>, space, newline is shown as \<open>a\<close>.
\<close>

theorem head_strips_trailing_spaces:
  "valid_utf8 spaces_content
   \<and> stdout (head head_archive (lit ''spaces'')) = [lit ''a'' @ [newline]]
   \<and> stdout (head head_archive (lit ''spaces''))
       \<noteq> map shown_by_spec (take 10 (readlines spaces_content))"
proof -
  have p: "payload \<lparr>name = lit ''spaces'', uname = lit ''root'', payload = RegFile spaces_content\<rparr>
           = RegFile spaces_content" by simp
  have "stdout (head head_archive (lit ''spaces'')) = [lit ''a'' @ [newline]]"
    unfolding head_out [OF head_archive_members(4) p] spaces_lines(3)
    using spaces_lines(2) by (simp add: head_archive_def)
  with spaces_lines(1,4) show ?thesis by (simp add: lit_def)
qed

section \<open>Into a child directory and back\<close>

text \<open>
  \<open>normpath\<close> on one or two slashes before sep-free components runs its loop on just
  these components; on an absolute path it leaves clean components only and is
  idempotent.
\<close>

lemma split_sep_single: "sep \<notin> set c \<Longrightarrow> split_sep c = [c]"
  by (induction c) auto

lemma split_sep_append: "sep \<notin> set c \<Longrightarrow> split_sep (c @ sep # r) = c # split_sep r"
  by (induction c) auto

lemma split_join:
  "cs \<noteq> [] \<Longrightarrow> \<forall>c \<in> set cs. sep \<notin> set c \<Longrightarrow> split_sep (join_sep cs) = cs"
  by (induction cs rule: join_sep.induct) (simp_all add: split_sep_single split_sep_append)

lemma split_seps: "split_sep (replicate k sep @ s) = replicate k [] @ split_sep s"
  by (induction k) auto

lemma join_sep_snoc: "cs \<noteq> [] \<Longrightarrow> join_sep (cs @ [c]) = join_sep cs @ sep # c"
  by (induction cs rule: join_sep.induct) auto

lemma normpath_loop_empties:
  "foldl (normpath_step i) acc (replicate k [] @ xs) = foldl (normpath_step i) acc xs"
  by (induction k) (simp_all add: normpath_step_def)

lemma normpath_loop_clean:
  "\<forall>c \<in> set cs. clean c \<Longrightarrow> foldl (normpath_step i) acc cs = acc @ cs"
  by (induction cs arbitrary: acc) (auto simp add: normpath_step_def clean_def proper_def)

lemma normpath_step_clean:
  assumes "i \<noteq> 0" "\<forall>c \<in> set acc. clean c" "sep \<notin> set x"
  shows "\<forall>c \<in> set (normpath_step i acc x). clean c"
  using assms
  by (auto simp add: normpath_step_def clean_def proper_def dest: in_set_butlastD)

lemma normpath_loop_stays_clean:
  "i \<noteq> 0 \<Longrightarrow> \<forall>c \<in> set acc. clean c \<Longrightarrow> \<forall>x \<in> set xs. sep \<notin> set x
   \<Longrightarrow> \<forall>c \<in> set (foldl (normpath_step i) acc xs). clean c"
proof (induction xs arbitrary: acc)
  case Nil
  then show ?case by simp
next
  case (Cons x xs)
  have "\<forall>c \<in> set (normpath_step i acc x). clean c"
    using Cons.prems by (intro normpath_step_clean) auto
  with Cons show ?case by simp
qed

lemma hd_join_sep: "xs \<noteq> [] \<Longrightarrow> hd xs \<noteq> [] \<Longrightarrow> hd (join_sep xs) = hd (hd xs)"
  by (induction xs rule: join_sep.induct) auto

lemma join_sep_empty: "xs \<noteq> [] \<Longrightarrow> hd xs \<noteq> [] \<Longrightarrow> join_sep xs \<noteq> []"
  by (induction xs rule: join_sep.induct) auto

lemma normpath_comps:
  assumes k: "k = 1 \<or> k = 2"
    and xs: "xs \<noteq> []" "\<forall>x \<in> set xs. sep \<notin> set x" "hd xs \<noteq> []"
  shows "os_path_normpath (replicate k sep @ join_sep xs)
         = replicate k sep @ join_sep (foldl (normpath_step k) [] xs)"
proof -
  let ?p = "replicate k sep @ join_sep xs"
  from xs have j: "join_sep xs \<noteq> []" by (simp add: join_sep_empty)
  from xs have "hd (join_sep xs) = hd (hd xs)" by (simp add: hd_join_sep)
  moreover from xs have "hd xs \<in> set xs" by simp
  ultimately have h: "hd (join_sep xs) \<noteq> sep"
    using xs(2,3) by (metis hd_in_set)
  obtain a r where ar: "join_sep xs = a # r" using j by (cases "join_sep xs") auto
  with h have a: "a \<noteq> sep" by simp
  have isl: "(if startswith ?p [sep]
               then (if startswith ?p [sep, sep] \<and> \<not> startswith ?p [sep, sep, sep]
                     then 2 else 1)
               else 0) = k"
    using k a by (auto simp add: startswith_def ar numeral_2_eq_2)
  have sp: "split_sep ?p = replicate k [] @ xs"
    using xs by (simp add: split_seps split_join)
  have ne: "?p \<noteq> []" using j by simp
  have k0: "k \<noteq> 0" using k by auto
  show ?thesis
    unfolding os_path_normpath_def Let_def isl sp normpath_loop_empties
    using ne k0 by simp
qed


lemma abs_normpath_shape:
  assumes "startswith p [sep]"
  shows "\<exists>k cs. (k = 1 \<or> k = 2) \<and> os_path_normpath p = replicate k sep @ join_sep cs
                \<and> (\<forall>c \<in> set cs. clean c)"
proof -
  define k :: nat where "k = (if startswith p [sep]
               then (if startswith p [sep, sep] \<and> \<not> startswith p [sep, sep, sep]
                     then 2 else 1)
               else 0)"
  define cs where "cs = foldl (normpath_step k) [] (split_sep p)"
  from assms have k: "k = 1 \<or> k = 2" by (simp add: k_def)
  then have k0: "k \<noteq> 0" by auto
  from assms have ne: "p \<noteq> []" by (auto simp add: startswith_def)
  have cl: "\<forall>c \<in> set cs. clean c"
    unfolding cs_def using k0 by (intro normpath_loop_stays_clean) (auto dest: split_sep_no_sep)
  have "os_path_normpath p = replicate k sep @ join_sep cs"
    unfolding os_path_normpath_def Let_def cs_def k_def using ne assms by simp
  with k cl show ?thesis by blast
qed

lemma normal_idem:
  assumes "k = 1 \<or> k = 2" and "\<forall>c \<in> set cs. clean c"
  shows "os_path_normpath (replicate k sep @ join_sep cs) = replicate k sep @ join_sep cs"
proof (cases "cs = []")
  case True
  with assms(1) show ?thesis
    by (auto simp add: os_path_normpath_def startswith_def normpath_step_def sep_def dot_def
        numeral_2_eq_2)
next
  case False
  then have "hd cs \<in> set cs" by simp
  with assms(2) have h: "hd cs \<noteq> []" by (auto simp add: clean_def proper_def)
  from assms(2) have ns: "\<forall>x \<in> set cs. sep \<notin> set x" by (auto simp add: clean_def proper_def)
  from normpath_comps [OF assms(1) False ns h] normpath_loop_clean [OF assms(2), of k "[]"]
  show ?thesis by simp
qed


lemma cd_eq:
  "cd st path =
     (if resolve_dir (current_dir st) path = [sep] then st\<lparr>current_dir := [sep]\<rparr>
      else if \<exists>m \<in> set (members st). startswith (normalize_member_name (name m))
                 (lstrip_sep (resolve_dir (current_dir st) path) @ [sep])
           then st\<lparr>current_dir := resolve_dir (current_dir st) path\<rparr>
      else print st (lit ''cd: '' @ path @ lit '': No such file or directory''))"
  by (simp add: cd_def Let_def resolve_dir_def normpath_prefix cd_loop_ex)

lemma clean_join_ends:
  assumes "\<forall>c \<in> set cs. clean c"
  shows "join_sep cs = [] \<or> (hd (join_sep cs) \<noteq> sep \<and> last (join_sep cs) \<noteq> sep)"
    and "join_sep cs = [] \<longleftrightarrow> cs = []"
proof -
  from assms have p: "\<forall>c \<in> set cs. proper c" by (simp add: clean_def)
  from join_sep_proper [OF _ p]
  show "join_sep cs = [] \<or> (hd (join_sep cs) \<noteq> sep \<and> last (join_sep cs) \<noteq> sep)"
    by (cases "cs = []") auto
  from join_sep_proper [OF _ p] show "join_sep cs = [] \<longleftrightarrow> cs = []"
    by (cases "cs = []") auto
qed

lemma normal_strips:
  assumes "\<forall>c \<in> set cs. clean c"
  shows "lstrip_sep (replicate k sep @ join_sep cs) = join_sep cs"
    and "strip_sep (replicate k sep @ join_sep cs) = join_sep cs"
    and "dir_prefix (replicate k sep @ join_sep cs) = (if cs = [] then [] else join_sep cs @ [sep])"
proof -
  from clean_join_ends(1) [OF assms]
  show l: "lstrip_sep (replicate k sep @ join_sep cs) = join_sep cs"
    and t: "strip_sep (replicate k sep @ join_sep cs) = join_sep cs"
    by (rule strip_leading_seps)+
  from t clean_join_ends(2) [OF assms]
  show "dir_prefix (replicate k sep @ join_sep cs) = (if cs = [] then [] else join_sep cs @ [sep])"
    by (simp add: dir_prefix_def)
qed

lemma endswith_last: "s \<noteq> [] \<Longrightarrow> endswith s [sep] \<longleftrightarrow> last s = sep"
  by (cases s rule: rev_cases) (auto simp add: endswith_def)

lemma join_component:
  assumes k: "k = 1 \<or> k = 2" and cs: "\<forall>c \<in> set cs. clean c"
    and c: "c \<noteq> []" "sep \<notin> set c"
  shows "os_path_join (replicate k sep @ join_sep cs) c = replicate k sep @ join_sep (cs @ [c])"
proof -
  from c obtain x c' where xc: "c = x # c'" "x \<noteq> sep" by (cases c) auto
  then have ns: "\<not> startswith c [sep]" by (simp add: startswith_def)
  from k have ne: "replicate k sep @ join_sep cs \<noteq> []" by auto
  show ?thesis
  proof (cases "cs = []")
    case True
    with k have "endswith (replicate k sep @ join_sep cs) [sep]"
      by (auto simp add: endswith_def numeral_2_eq_2)
    with ns ne True show ?thesis by (simp add: os_path_join_def)
  next
    case False
    with clean_join_ends [OF cs] have "join_sep cs \<noteq> []" "last (join_sep cs) \<noteq> sep"
      by auto
    then have "last (replicate k sep @ join_sep cs) \<noteq> sep" by simp
    with ne have "\<not> endswith (replicate k sep @ join_sep cs) [sep]"
      by (metis endswith_last)
    with ns ne False show ?thesis by (simp add: os_path_join_def join_sep_snoc)
  qed
qed

lemma resolve_child:
  assumes k: "k = 1 \<or> k = 2" and cs: "\<forall>c \<in> set cs. clean c" and c: "clean c"
  shows "resolve_dir (replicate k sep @ join_sep cs) c = replicate k sep @ join_sep (cs @ [c])"
proof -
  from c have c': "c \<noteq> []" "sep \<notin> set c" by (auto simp add: clean_def proper_def)
  from cs c have all: "\<forall>x \<in> set (cs @ [c]). clean x" by simp
  from join_component [OF k cs c'] normal_idem [OF k all] show ?thesis
    by (simp add: resolve_dir_def)
qed

lemma resolve_parent:
  assumes k: "k = 1 \<or> k = 2" and cs: "\<forall>c \<in> set cs. clean c" and c: "clean c"
  shows "resolve_dir (replicate k sep @ join_sep (cs @ [c])) dotdot = replicate k sep @ join_sep cs"
proof -
  from cs c have all: "\<forall>x \<in> set (cs @ [c]). clean x" by simp
  have dd: "dotdot \<noteq> []" "sep \<notin> set dotdot" by (simp_all add: dotdot_def sep_def)
  from join_component [OF k all dd]
  have j: "os_path_join (replicate k sep @ join_sep (cs @ [c])) dotdot
           = replicate k sep @ join_sep (cs @ [c, dotdot])" by simp
  have ne: "cs @ [c, dotdot] \<noteq> []" by simp
  have ns: "\<forall>x \<in> set (cs @ [c, dotdot]). sep \<notin> set x"
    using cs c dd by (auto simp add: clean_def proper_def)
  have "hd (cs @ [c, dotdot]) \<in> set (cs @ [c])" by (cases cs) auto
  with all have h: "hd (cs @ [c, dotdot]) \<noteq> []" by (auto simp add: clean_def proper_def)
  from k have k0: "k \<noteq> 0" by auto
  have "foldl (normpath_step k) [] (cs @ [c, dotdot])
        = normpath_step k (foldl (normpath_step k) [] (cs @ [c])) dotdot" by simp
  also have "\<dots> = normpath_step k (cs @ [c]) dotdot"
    using normpath_loop_clean [OF all, of k "[]"] by simp
  also have "\<dots> = cs"
    using c k0 by (simp add: normpath_step_def clean_def dotdot_def dot_def)
  finally have f: "foldl (normpath_step k) [] (cs @ [c, dotdot]) = cs" .
  from normpath_comps [OF k ne ns h] f j show ?thesis
    by (simp add: resolve_dir_def)
qed


text \<open>Every reachable state has a valid current directory.\<close>

lemma join_abs: "startswith a [sep] \<Longrightarrow> startswith (os_path_join a b) [sep]"
  by (cases a) (auto simp add: os_path_join_def startswith_def)

lemma normal_starts:
  "k = 1 \<or> k = 2 \<Longrightarrow> startswith (replicate k sep @ j) [sep]"
  by (auto simp add: startswith_def numeral_2_eq_2)

lemma valid_dir_shape:
  assumes "valid_dir st"
  shows "\<exists>k cs. (k = 1 \<or> k = 2) \<and> current_dir st = replicate k sep @ join_sep cs
                \<and> (\<forall>c \<in> set cs. clean c)"
  using assms abs_normpath_shape [of "current_dir st"] by (simp add: valid_dir_def)

lemma root_valid: "os_path_normpath [sep] = [sep]" "startswith [sep] [sep]"
  by (simp_all add: os_path_normpath_def startswith_def normpath_step_def sep_def dot_def)

lemma cd_valid:
  assumes "valid_dir st"
  shows "valid_dir (cd st p)"
proof -
  let ?r = "resolve_dir (current_dir st) p"
  from assms have "startswith (current_dir st) [sep]" by (simp add: valid_dir_def)
  then have "startswith (os_path_join (current_dir st) p) [sep]" by (rule join_abs)
  from abs_normpath_shape [OF this] obtain k cs where k: "k = 1 \<or> k = 2"
    and r: "?r = replicate k sep @ join_sep cs" and cs: "\<forall>c \<in> set cs. clean c"
    unfolding resolve_dir_def by blast
  from normal_idem [OF k cs] r have idem: "os_path_normpath ?r = ?r" by simp
  from normal_starts [OF k] r have st: "startswith ?r [sep]" by simp
  show ?thesis
    unfolding cd_eq using assms idem st root_valid
    by (auto simp add: valid_dir_def print_def)
qed

lemma chown_loop_names: "chown_loop ow t ms = Some ms' \<Longrightarrow> map name ms' = map name ms"
  by (induction ms arbitrary: ms') (auto split: if_splits)

lemma names_exists:
  assumes "map name ms' = map name ms"
  shows "(\<exists>m \<in> set ms'. P (name m)) \<longleftrightarrow> (\<exists>m \<in> set ms. P (name m))"
proof -
  have "(\<exists>m \<in> set ms'. P (name m)) \<longleftrightarrow> (\<exists>n \<in> set (map name ms'). P n)" by auto
  also have "\<dots> \<longleftrightarrow> (\<exists>n \<in> set (map name ms). P n)" by (simp only: assms)
  also have "\<dots> \<longleftrightarrow> (\<exists>m \<in> set ms. P (name m))" by auto
  finally show ?thesis .
qed

lemma chown_valid:
  assumes "valid_dir st"
  shows "valid_dir (chown st ow p)"
proof (cases "chown_loop ow (resolve_file (current_dir st) p) (members st)")
  case None
  with assms show ?thesis
    by (simp add: chown_def resolve_file_def valid_dir_def print_def)
next
  case (Some ms')
  from names_exists [OF chown_loop_names [OF Some],
      of "\<lambda>n. startswith (normalize_member_name n) (lstrip_sep (current_dir st) @ [sep])"]
    assms Some
  show ?thesis
    by (simp add: chown_def resolve_file_def valid_dir_def print_def)
qed

lemma stdout_only_valid:
  "valid_dir (st\<lparr>stdout := x\<rparr>) = valid_dir st"
  "valid_dir (st\<lparr>log_rows := y\<rparr>) = valid_dir st"
  "valid_dir (st\<lparr>status := z\<rparr>) = valid_dir st"
  by (simp_all add: valid_dir_def)

lemma handlers_valid:
  "valid_dir (ls st) = valid_dir st" "valid_dir (head st p) = valid_dir st"
  "valid_dir (wc st p) = valid_dir st" "valid_dir (print st s) = valid_dir st"
  "valid_dir (exit_shell st) = valid_dir st"
  by (simp_all add: valid_dir_def)

lemma execute_command_valid:
  assumes "valid_dir st"
  shows "valid_dir (execute_command st line)"
  using assms
  by (simp add: execute_command_def Let_def handlers_valid stdout_only_valid cd_valid chown_valid)

lemma reachable_valid: "reachable st \<Longrightarrow> valid_dir st"
proof (induction rule: reachable.induct)
  case (start user ms spath)
  show ?case by (simp add: valid_dir_def initial_def root_valid)
next
  case (step st line)
  from step.IH show ?case by (rule execute_command_valid)
next
  case (prompted st)
  then show ?case by (simp add: valid_dir_def prompt_def)
qed

text \<open>The states of a session are reachable: the startup script only executes commands.\<close>

lemma script_loop_reachable: "reachable st \<Longrightarrow> reachable (script_loop st cs)"
  by (induction cs arbitrary: st) (auto simp add: Let_def intro: reachable.step)

lemma init_reachable: "reachable (init user ms spath (Some script))"
  using script_loop_reachable [OF reachable.start]
  by (simp add: init_def run_startup_script_def initial_def)


lemma child_clean:
  assumes "child_directory st c" "c \<noteq> dot" "c \<noteq> dotdot"
  shows "clean c"
proof -
  from assms(1) have "c \<in> children st" by (simp add: child_directory_def)
  then obtain n where "c = first_segment n" "c \<noteq> []"
    by (auto simp add: children_def)
  then have "c \<noteq> []" "sep \<notin> set c"
    by (auto simp add: first_segment_def dest: set_takeWhileD)
  with assms(2,3) show ?thesis by (simp add: clean_def proper_def)
qed

lemma resolve_no_dotdot:
  assumes "valid_dir st"
  shows "startswith (resolve_dir (current_dir st) p) [sep]
         \<and> dotdot \<notin> set (split_sep (resolve_dir (current_dir st) p))"
proof -
  from assms have "startswith (current_dir st) [sep]" by (simp add: valid_dir_def)
  then have "startswith (os_path_join (current_dir st) p) [sep]" by (rule join_abs)
  from abs_normpath_shape [OF this] obtain k cs where k: "k = 1 \<or> k = 2"
    and r: "resolve_dir (current_dir st) p = replicate k sep @ join_sep cs"
    and cs: "\<forall>c \<in> set cs. clean c"
    unfolding resolve_dir_def by blast
  from cs have ns: "\<forall>c \<in> set cs. sep \<notin> set c" by (auto simp add: clean_def proper_def)
  have "set (split_sep (replicate k sep @ join_sep cs)) \<subseteq> insert [] (set cs)"
  proof (cases "cs = []")
    case True
    with split_seps [of k "[]"] show ?thesis by auto
  next
    case False
    with split_join [OF False ns] show ?thesis by (auto simp add: split_seps)
  qed
  moreover have "dotdot \<noteq> []" by (simp add: dotdot_def)
  moreover from cs have "dotdot \<notin> set cs" by (auto simp add: clean_def)
  ultimately have "dotdot \<notin> set (split_sep (replicate k sep @ join_sep cs))" by blast
  with r normal_starts [OF k] show ?thesis by simp
qed

text \<open>
  The handlers alone: from a valid directory, \<open>cd\<close> into a child directory that is neither
  \<open>.\<close> nor \<open>..\<close> and \<open>cd\<close> with \<open>..\<close> after it lead back.
\<close>

lemma cd_handler_round_trip:
  assumes "reachable st" and "child_directory st c" and "c \<noteq> dot" and "c \<noteq> dotdot"
  shows "cd st c = st\<lparr>current_dir := resolve_dir (current_dir st) c\<rparr>
         \<and> current_dir (cd (cd st c) dotdot) = current_dir st
         \<and> startswith (resolve_dir (current_dir st) p) [sep]
         \<and> dotdot \<notin> set (split_sep (resolve_dir (current_dir st) p))
         \<and> resolve_dir [sep] dotdot = [sep]"
proof -
  from assms(1) have v: "valid_dir st" by (rule reachable_valid)
  from valid_dir_shape [OF v] obtain k cs where k: "k = 1 \<or> k = 2"
    and d: "current_dir st = replicate k sep @ join_sep cs" and cs: "\<forall>x \<in> set cs. clean x"
    by blast
  from assms(2-4) have c: "clean c" by (rule child_clean)
  from cs c have all: "\<forall>x \<in> set (cs @ [c]). clean x" by simp
  let ?r = "replicate k sep @ join_sep (cs @ [c])"
  from resolve_child [OF k cs c] d have r: "resolve_dir (current_dir st) c = ?r" by simp
  from clean_join_ends(2) [OF all] have jne: "join_sep (cs @ [c]) \<noteq> []" by simp
  with k have rne: "?r \<noteq> [sep]" by (auto simp add: numeral_2_eq_2)
  have lr: "lstrip_sep ?r = join_sep (cs @ [c])" using all by (rule normal_strips(1))
  have pre: "dir_prefix (current_dir st) @ c @ [sep] = join_sep (cs @ [c]) @ [sep]"
    unfolding d normal_strips(3) [OF cs] by (cases "cs = []") (simp_all add: join_sep_snoc)
  from assms(2) have ex: "\<exists>m \<in> set (members st). startswith (normalize_member_name (name m))
             (lstrip_sep ?r @ [sep])"
    unfolding lr pre [symmetric] by (simp add: child_directory_def)
  have one: "cd st c = st\<lparr>current_dir := resolve_dir (current_dir st) c\<rparr>"
    unfolding cd_eq r using rne ex by simp
  from resolve_parent [OF k cs c] d
  have par: "resolve_dir ?r dotdot = current_dir st" by simp
  from v have dex: "current_dir st = [sep] \<or> (\<exists>m \<in> set (members st).
      startswith (normalize_member_name (name m)) (lstrip_sep (current_dir st) @ [sep]))"
    by (simp add: valid_dir_def)
  have par': "resolve_dir (current_dir (st\<lparr>current_dir := ?r\<rparr>)) dotdot = current_dir st"
    using par by simp
  have "current_dir (cd (st\<lparr>current_dir := ?r\<rparr>) dotdot) = current_dir st"
    unfolding cd_eq [of "st\<lparr>current_dir := ?r\<rparr>" dotdot] par'
    using dex by (cases "current_dir st = [sep]") auto
  then have two: "current_dir (cd (cd st c) dotdot) = current_dir st"
    unfolding one r .
  have root: "resolve_dir [sep] dotdot = [sep]"
    by (simp add: resolve_dir_def text_defs path_defs)
  from one two resolve_no_dotdot [OF v, of p] root show ?thesis by simp
qed


lemma in_dir1_state:
  "in_dir1 = \<lparr>username = lit ''user'', script_path = lit ''start.sh'',
              current_dir = lit ''/dir1'', members = nested_archive,
              log_rows = [[lit ''User'', lit ''Action''], [lit ''user'', lit ''cd dir1'']],
              stdout = [], status = None\<rparr>"
  by (simp add: in_dir1_def execute_command_def Let_def cd_def initial_def nested_archive_def
      text_defs path_defs)

lemma in_a_state:
  "in_a = \<lparr>username = lit ''user'', script_path = lit ''start.sh'',
           current_dir = lit ''/a'', members = dotdot_archive,
           log_rows = [[lit ''User'', lit ''Action''], [lit ''user'', lit ''cd a'']],
           stdout = [], status = None\<rparr>"
  by (simp add: in_a_def execute_command_def Let_def cd_def initial_def dotdot_archive_def
      text_defs path_defs)

lemmas child_defs = child_directory_def children_def dir_prefix_def first_segment_def


text \<open>
  The command line \<open>cd C\<close> for a name without white space has the two tokens \<open>cd\<close> and
  \<open>C\<close>, and a line with these tokens runs the handler on the second.
\<close>

lemma split_acc_word:
  "\<forall>x \<in> set w'. \<not> isspace x \<Longrightarrow> split_acc w (w' @ rest) = split_acc (w @ w') rest"
  by (induction w' arbitrary: w) simp_all

lemma str_strip_word:
  assumes "s \<noteq> []" "\<not> isspace (hd s)" "\<not> isspace (last s)"
  shows "str_strip s = s"
proof -
  from assms have l: "str_lstrip s = s" by (cases s) (simp_all add: str_lstrip_def)
  from assms have "dropWhile isspace (rev s) = rev s"
    by (cases s rule: rev_cases) simp_all
  then have "str_rstrip s = s" by (simp add: str_rstrip_def)
  with l show ?thesis by (simp add: str_strip_def)
qed

lemma cd_tokens:
  assumes "c \<noteq> []" "\<forall>x \<in> set c. \<not> isspace x"
  shows "str_split (str_strip (lit ''cd '' @ c)) = [lit ''cd'', c]"
proof -
  have cd: "lit ''cd '' = lit ''cd'' @ [32]" by (simp add: lit_def)
  have w: "\<forall>x \<in> set (lit ''cd''). \<not> isspace x" by (simp add: lit_def isspace_def)
  have sp: "isspace 32" by (simp add: isspace_def)
  from assms have "last c \<in> set c" by simp
  with assms have lc: "\<not> isspace (last (lit ''cd '' @ c))" by simp
  have hc: "\<not> isspace (hd (lit ''cd '' @ c))" by (simp add: lit_def isspace_def)
  from str_strip_word [OF _ hc lc] have s: "str_strip (lit ''cd '' @ c) = lit ''cd '' @ c"
    by (simp add: lit_def)
  have "split_acc [] (lit ''cd'' @ 32 # c) = split_acc ([] @ lit ''cd'') (32 # c)"
    using w by (rule split_acc_word)
  also have "\<dots> = lit ''cd'' # split_acc [] (c @ [])"
    using sp by (simp add: lit_def)
  also have "split_acc [] (c @ []) = split_acc ([] @ c) []"
    using assms(2) by (rule split_acc_word)
  also have "\<dots> = [c]" using assms(1) by simp
  finally have f: "split_acc [] (lit ''cd'' @ 32 # c) = [lit ''cd'', c]" .
  show ?thesis unfolding str_split_def s unfolding cd using f by simp
qed

lemma execute_cd:
  assumes "str_split (str_strip line) = [lit ''cd'', x]"
  shows "execute_command st line = (cd st x)\<lparr>log_rows := log_rows st @ [[username st, line]]\<rparr>"
proof -
  have "lit ''cd'' \<noteq> lit ''ls''" by (simp add: lit_def)
  with assms show ?thesis
    by (simp add: execute_command_def Let_def cd_log)
qed

lemma parent_tokens: "str_split (str_strip (lit ''cd ..'')) = [lit ''cd'', dotdot]"
  by (simp add: text_defs)

text \<open>
  Claim C9, as the code has it.  From a reachable state, the command \<open>cd C\<close> for a child
  directory \<open>C\<close> that is neither \<open>.\<close> nor \<open>..\<close> and has no white space in its name succeeds:
  it adds the log row, prints nothing and makes the resolved path the current directory.
  The command \<open>cd ..\<close> after it brings the current directory back to what it was.
  Whatever is resolved against the current directory of a reachable state is an absolute
  path with no \<open>..\<close> component, and \<open>..\<close> at the root resolves to the root.
\<close>

theorem cd_child_then_parent:
  assumes "reachable st" and "child_directory st c" and "c \<noteq> dot" and "c \<noteq> dotdot"
    and "\<forall>x \<in> set c. \<not> isspace x"
  shows "execute_command st (lit ''cd '' @ c)
           = st\<lparr>log_rows := log_rows st @ [[username st, lit ''cd '' @ c]],
                current_dir := resolve_dir (current_dir st) c\<rparr>
         \<and> current_dir (execute_command (execute_command st (lit ''cd '' @ c)) (lit ''cd ..''))
             = current_dir st
         \<and> startswith (resolve_dir (current_dir st) p) [sep]
         \<and> dotdot \<notin> set (split_sep (resolve_dir (current_dir st) p))
         \<and> resolve_dir [sep] dotdot = [sep]"
proof -
  from assms(2) have "c \<in> children st" by (simp add: child_directory_def)
  then have ne: "c \<noteq> []" by (auto simp add: children_def)
  note h = cd_handler_round_trip [OF assms(1-4), of p]
  from h have one: "cd st c = st\<lparr>current_dir := resolve_dir (current_dir st) c\<rparr>" by blast
  from h have two: "current_dir (cd (cd st c) dotdot) = current_dir st" by blast
  let ?row = "[username st, lit ''cd '' @ c]"
  have e1: "execute_command st (lit ''cd '' @ c)
           = st\<lparr>log_rows := log_rows st @ [?row],
                current_dir := resolve_dir (current_dir st) c\<rparr>"
    unfolding execute_cd [OF cd_tokens [OF ne assms(5)]] one by simp
  have "execute_command (execute_command st (lit ''cd '' @ c)) (lit ''cd ..'')
        = (cd ((cd st c)\<lparr>log_rows := log_rows st @ [?row]\<rparr>) dotdot)
            \<lparr>log_rows := (log_rows st @ [?row]) @ [[username st, lit ''cd ..'']]\<rparr>"
    unfolding execute_cd [OF parent_tokens] execute_cd [OF cd_tokens [OF ne assms(5)]]
    by simp
  then have e2: "current_dir (execute_command (execute_command st (lit ''cd '' @ c)) (lit ''cd ..''))
        = current_dir st"
    using two by (simp add: cd_log)
  from e1 e2 h show ?thesis by blast
qed


theorem cd_child_then_parent_witness:
  "execute_command in_dir1 (lit ''cd sub'')
     = in_dir1\<lparr>log_rows := log_rows in_dir1 @ [[lit ''user'', lit ''cd sub'']],
               current_dir := lit ''/dir1/sub''\<rparr>
   \<and> current_dir (execute_command (execute_command in_dir1 (lit ''cd sub'')) (lit ''cd ..''))
       = lit ''/dir1''"
proof -
  have r: "reachable in_dir1"
    unfolding in_dir1_def by (rule reachable.step [OF reachable.start])
  have c: "child_directory in_dir1 (lit ''sub'')"
    unfolding in_dir1_state
    by (simp add: child_defs nested_archive_def normalize_member_name_def text_defs)
  have n: "lit ''sub'' \<noteq> dot" "lit ''sub'' \<noteq> dotdot"
    by (simp_all add: lit_def dot_def dotdot_def)
  have w: "\<forall>x \<in> set (lit ''sub''). \<not> isspace x"
    by (simp add: lit_def isspace_def)
  have l: "lit ''cd '' @ lit ''sub'' = lit ''cd sub''" by (simp add: lit_def)
  have d: "resolve_dir (lit ''/dir1'') (lit ''sub'') = lit ''/dir1/sub''"
    by (simp add: resolve_dir_def text_defs path_defs)
  have e: "current_dir in_dir1 = lit ''/dir1''" "username in_dir1 = lit ''user''"
    unfolding in_dir1_state by simp_all
  from cd_child_then_parent [OF r c n w, of "[]"] show ?thesis
    unfolding l e d by blast
qed

text \<open>
  Claim C9 as stated fails for a child that is named \<open>..\<close>.  With the entry
  \<open>a/../b/f\<close> the directory \<open>/a\<close> is reachable and lists \<open>..\<close> as a child directory; the
  command \<open>cd ..\<close> from there succeeds and leads to the root, and a second \<open>cd ..\<close> stays
  at the root.
\<close>

theorem cd_parent_segment_as_child:
  "reachable in_a \<and> current_dir in_a = lit ''/a'' \<and> child_directory in_a dotdot
   \<and> execute_command in_a (lit ''cd ..'')
       = in_a\<lparr>log_rows := log_rows in_a @ [[lit ''user'', lit ''cd ..'']],
              current_dir := lit ''/''\<rparr>
   \<and> current_dir (execute_command (execute_command in_a (lit ''cd ..'')) (lit ''cd ..''))
       \<noteq> current_dir in_a"
proof -
  have r: "reachable in_a"
    unfolding in_a_def by (rule reachable.step [OF reachable.start])
  have c: "child_directory in_a dotdot"
    unfolding in_a_state
    by (simp add: child_defs dotdot_archive_def normalize_member_name_def text_defs)
  have one: "cd in_a dotdot = in_a\<lparr>current_dir := lit ''/''\<rparr>"
    unfolding in_a_state by (simp add: cd_def Let_def text_defs path_defs)
  have two: "current_dir (cd (in_a\<lparr>log_rows := rows, current_dir := lit ''/''\<rparr>) dotdot)
             = lit ''/''" for rows
    unfolding in_a_state by (simp add: cd_def Let_def text_defs path_defs)
  have e: "current_dir in_a = lit ''/a''" "username in_a = lit ''user''"
    unfolding in_a_state by simp_all
  have x1: "execute_command in_a (lit ''cd ..'')
       = in_a\<lparr>log_rows := log_rows in_a @ [[lit ''user'', lit ''cd ..'']],
              current_dir := lit ''/''\<rparr>"
    unfolding execute_cd [OF parent_tokens] one e by simp
  have x2: "current_dir (execute_command (execute_command in_a (lit ''cd ..'')) (lit ''cd ..''))
        = lit ''/''"
    unfolding x1 unfolding execute_cd [OF parent_tokens] using two by simp
  from r c e x1 x2 show ?thesis by (simp add: lit_def)
qed

text \<open>
  A child with white space in its name cannot be named on a command line: with the entry
  \<open>d/my dir/f\<close>, in \<open>/d\<close>, the line \<open>cd my dir\<close> is the command \<open>cd my\<close> with a surplus
  token, and fails.
\<close>

lemma in_d_state:
  "in_d = \<lparr>username = lit ''user'', script_path = lit ''start.sh'',
           current_dir = lit ''/d'', members = spaced_archive,
           log_rows = [[lit ''User'', lit ''Action''], [lit ''user'', lit ''cd d'']],
           stdout = [], status = None\<rparr>"
  by (simp add: in_d_def execute_command_def Let_def cd_def initial_def spaced_archive_def
      text_defs path_defs)

lemma cd_child_with_space:
  "reachable in_d \<and> current_dir in_d = lit ''/d'' \<and> child_directory in_d (lit ''my dir'')
   \<and> execute_command in_d (lit ''cd my dir'')
       = in_d\<lparr>log_rows := log_rows in_d @ [[lit ''user'', lit ''cd my dir'']],
              stdout := [lit ''cd: my: No such file or directory'' @ [newline]]\<rparr>"
proof -
  have r: "reachable in_d"
    unfolding in_d_def by (rule reachable.step [OF reachable.start])
  have c: "child_directory in_d (lit ''my dir'')"
    unfolding in_d_state
    by (simp add: child_defs spaced_archive_def normalize_member_name_def text_defs)
  have x: "execute_command in_d (lit ''cd my dir'')
       = in_d\<lparr>log_rows := log_rows in_d @ [[lit ''user'', lit ''cd my dir'']],
              stdout := [lit ''cd: my: No such file or directory'' @ [newline]]\<rparr>"
    unfolding in_d_state
    by (simp add: execute_command_def Let_def cd_def print_def spaced_archive_def
        text_defs path_defs)
  have e: "current_dir in_d = lit ''/d''" unfolding in_d_state by simp
  from r c x e show ?thesis by simp
qed

section \<open>The root written with two slashes\<close>

lemma root_session_state:
  "root_session = \<lparr>username = lit ''user'', script_path = lit ''start.sh'',
                   current_dir = lit ''/'', members = nested_archive,
                   log_rows = [[lit ''User'', lit ''Action'']], stdout = [], status = None\<rparr>"
  by (simp add: root_session_def initial_def lit_def sep_def)

lemma double_slash_paths:
  "resolve_dir (lit ''/'') (lit ''//'') = lit ''//''"
  "resolve_dir (lit ''/'') (lit ''//dir1'') = lit ''//dir1''"
  "resolve_dir (lit ''//dir1'') (lit ''..'') = lit ''//''"
  by (simp_all add: resolve_dir_def text_defs path_defs numeral_2_eq_2)

lemma double_slash_tokens:
  "str_split (str_strip (lit ''cd //'')) = [lit ''cd'', lit ''//'']"
  "str_split (str_strip (lit ''cd //dir1'')) = [lit ''cd'', lit ''//dir1'']"
  by (simp_all add: text_defs)

text \<open>
  Claim C1.  \<open>cd P\<close> is to succeed, and make \<open>/\<close> the current directory, whenever \<open>P\<close>
  resolves to the root.  \<open>cd\<close> compares the resolved path with \<open>/\<close> only, and \<open>normpath\<close>
  keeps a leading \<open>//\<close>.  At the root, \<open>cd //\<close> resolves to \<open>//\<close>, which \<open>ls\<close> lists as the
  root, and yet prints \<open>cd: //: No such file or directory\<close>.  \<open>cd //dir1\<close> makes \<open>//dir1\<close>
  the current directory, and from there \<open>cd ..\<close>, which resolves to \<open>//\<close>, fails as well and
  leaves the current directory where it is.
\<close>

theorem cd_double_slash_is_not_root:
  "resolve_dir (current_dir root_session) (lit ''//'') = lit ''//''
   \<and> execute_command root_session (lit ''cd //'')
       = root_session\<lparr>log_rows := log_rows root_session @ [[lit ''user'', lit ''cd //'']],
                      stdout := [lit ''cd: //: No such file or directory'' @ [newline]]\<rparr>
   \<and> children (root_session\<lparr>current_dir := lit ''//''\<rparr>) = children root_session
   \<and> current_dir (execute_command root_session (lit ''cd //dir1'')) = lit ''//dir1''
   \<and> stdout (execute_command (execute_command root_session (lit ''cd //dir1'')) (lit ''cd ..''))
       = [lit ''cd: ..: No such file or directory'' @ [newline]]
   \<and> current_dir (execute_command (execute_command root_session (lit ''cd //dir1''))
         (lit ''cd ..'')) = lit ''//dir1''"
proof -
  have ne: "lit ''//'' \<noteq> [sep]" "lit ''//dir1'' \<noteq> [sep]"
    by (simp_all add: lit_def sep_def)
  have no: "\<not> (\<exists>m \<in> set nested_archive. startswith (normalize_member_name (name m))
               (lstrip_sep (lit ''//'') @ [sep]))"
    by (simp add: nested_archive_def normalize_member_name_def text_defs)
  have yes: "\<exists>m \<in> set nested_archive. startswith (normalize_member_name (name m))
               (lstrip_sep (lit ''//dir1'') @ [sep])"
    by (simp add: nested_archive_def normalize_member_name_def text_defs)
  have a: "resolve_dir (current_dir root_session) (lit ''//'') = lit ''//''"
    unfolding root_session_state using double_slash_paths(1) by simp
  have c1: "cd root_session (lit ''//'')
            = print root_session (lit ''cd: '' @ lit ''//'' @ lit '': No such file or directory'')"
    unfolding cd_eq a using ne no by (simp add: root_session_state)
  have b: "execute_command root_session (lit ''cd //'')
       = root_session\<lparr>log_rows := log_rows root_session @ [[lit ''user'', lit ''cd //'']],
                      stdout := [lit ''cd: //: No such file or directory'' @ [newline]]\<rparr>"
    unfolding execute_cd [OF double_slash_tokens(1)] c1
    by (simp add: print_def root_session_state lit_def)
  have c: "children (root_session\<lparr>current_dir := lit ''//''\<rparr>) = children root_session"
    by (simp add: children_def dir_prefix_def root_session_state text_defs)
  have a2: "resolve_dir (current_dir root_session) (lit ''//dir1'') = lit ''//dir1''"
    unfolding root_session_state using double_slash_paths(2) by simp
  have c2: "cd root_session (lit ''//dir1'') = root_session\<lparr>current_dir := lit ''//dir1''\<rparr>"
    unfolding cd_eq a2 using ne yes by (simp add: root_session_state)
  have d: "execute_command root_session (lit ''cd //dir1'')
           = root_session\<lparr>current_dir := lit ''//dir1'',
               log_rows := log_rows root_session @ [[lit ''user'', lit ''cd //dir1'']]\<rparr>"
    unfolding execute_cd [OF double_slash_tokens(2)] c2 by (simp add: root_session_state)
  have c3: "cd (root_session\<lparr>current_dir := lit ''//dir1'', log_rows := rows\<rparr>) dotdot
            = print (root_session\<lparr>current_dir := lit ''//dir1'', log_rows := rows\<rparr>)
                (lit ''cd: '' @ dotdot @ lit '': No such file or directory'')" for rows
    unfolding cd_eq using double_slash_paths(3) ne no
    by (simp add: root_session_state dotdot_def lit_def)
  have e: "stdout (execute_command (execute_command root_session (lit ''cd //dir1'')) (lit ''cd ..''))
       = [lit ''cd: ..: No such file or directory'' @ [newline]]"
    unfolding d execute_cd [OF parent_tokens] c3
    by (simp add: print_def root_session_state dotdot_def lit_def)
  have f: "current_dir (execute_command (execute_command root_session (lit ''cd //dir1''))
         (lit ''cd ..'')) = lit ''//dir1''"
    unfolding d execute_cd [OF parent_tokens] c3 by (simp add: print_def)
  from a b c d e f show ?thesis by simp
qed

end
